theory Spec2Isabelle
  imports Complex_Main
begin

section \<open>Timelapse export: a model of \<^verbatim>\<open>export.py\<close>\<close>

text \<open>
  The program asks a printer to export a timelapse, waits until the file is announced on
  the websocket or visible over HTTP, and downloads it. Every function of the script is
  embedded as a HOL function of the same name. What the script reads from outside (HTTP
  answers, websocket frames, the clock, the file system's verdicts) is an explicit
  argument; what it does to the outside (console lines, files, sleeps, frames sent) is
  collected in a record \<open>world\<close> that is passed along and returned.
\<close>

subsection \<open>JSON values and console lines\<close>

text \<open>
  A value as \<^verbatim>\<open>json.loads\<close> returns it. \<open>JObj\<close> holds the items of the decoded \<^verbatim>\<open>dict\<close>
  (keys are unique there); a finite float is the rational it denotes.
\<close>

datatype json =
    JNull
  | JBool bool
  | JInt int
  | JFloat rat
  | JStr string
  | JArr "json list"
  | JObj "(string \<times> json) list"

text \<open>
  One constructor for every \<^verbatim>\<open>print\<close> of the script; the arguments are the values the
  f-string interpolates.
\<close>

datatype line =
    Download_attempt nat string string  \<comment> \<open>\<^verbatim>\<open>[download] Attempt {attempt}: {url} -> {dest_path}\<close>\<close>
  | Download_success                    \<comment> \<open>\<^verbatim>\<open>[download] Success\<close>\<close>
  | Download_failed string              \<comment> \<open>\<^verbatim>\<open>[download] Failed: {e}\<close>\<close>
  | Latest_fetching string              \<comment> \<open>\<^verbatim>\<open>[latest] Fetching listing: {page_url}\<close>\<close>
  | Latest_fetch_failed string          \<comment> \<open>\<^verbatim>\<open>[latest] Failed to fetch listing: {e}\<close>\<close>
  | Latest_no_entries                   \<comment> \<open>\<^verbatim>\<open>[latest] Could not find any entries on listing page.\<close>\<close>
  | Latest_item string string int       \<comment> \<open>\<^verbatim>\<open>[latest] Latest item: name=.. href=.. modified=.. (..)\<close>\<close>
  | Latest_resolved string              \<comment> \<open>\<^verbatim>\<open>[latest] Resolved MP4 path: {mp4_path}\<close>\<close>
  | Export_requested string             \<comment> \<open>\<^verbatim>\<open>Export requested for: {target_mp4}\<close>\<close>
  | Ws_recv_error                       \<comment> \<open>\<^verbatim>\<open>[ws] recv error/closed\<close>\<close>
  | Ws_323_for json                     \<comment> \<open>\<^verbatim>\<open>[ws] 323 for: {got}\<close>\<close>
  | Ws_323_different json               \<comment> \<open>\<^verbatim>\<open>[ws] 323 for different file: {got}\<close>\<close>
  | Timed_out int string                \<comment> \<open>\<^verbatim>\<open>ERROR: timed out after {max_wait}s waiting for {target_mp4}\<close>\<close>
  | Timelapse_ready string              \<comment> \<open>\<^verbatim>\<open>Timelapse ready at: {http_url}\<close>\<close>
  | Heads_up                            \<comment> \<open>\<^verbatim>\<open>(Heads-up: WS said ready, HTTP not yet downloadable)\<close>\<close>
  | Download_url string                 \<comment> \<open>\<^verbatim>\<open>Download URL: {http_url}\<close>\<close>
  | Download_failed_for string          \<comment> \<open>\<^verbatim>\<open>ERROR: download failed for {http_url}\<close>\<close>
  | Saved string                        \<comment> \<open>\<^verbatim>\<open>Saved: {dest_path}\<close>\<close>
  | Provide_file                        \<comment> \<open>\<^verbatim>\<open>ERROR: provide a file path or use --latest\<close>\<close>

subsection \<open>The world the script acts on\<close>

text \<open>
  The file system is changed in two places only: \<^verbatim>\<open>os.makedirs\<close> and \<^verbatim>\<open>open(dest_path, "wb")\<close>.
  Each is recorded as an operation; \<open>Write_file p c\<close> says that \<open>p\<close> was opened with
  truncation and holds \<open>c\<close> when it is closed.
\<close>

datatype fs_op = Makedirs string | Write_file string string

record world =
  out :: "line list"         \<comment> \<open>standard output\<close>
  err :: "line list"         \<comment> \<open>standard error\<close>
  fs_ops :: "fs_op list"     \<comment> \<open>changes to the local file system\<close>
  requests :: "string list"  \<comment> \<open>URLs opened with \<^verbatim>\<open>urllib.request.urlopen\<close>\<close>
  sleeps :: "rat list"       \<comment> \<open>arguments of \<^verbatim>\<open>time.sleep\<close>\<close>
  sent :: "json list"        \<comment> \<open>export commands sent on the websocket\<close>
  pings :: nat               \<comment> \<open>keepalive frames sent on the websocket\<close>

definition world0 :: world where
  "world0 = \<lparr>out = [], err = [], fs_ops = [], requests = [], sleeps = [], sent = [], pings = 0\<rparr>"

definition say :: "line \<Rightarrow> world \<Rightarrow> world" where
  "say l w = w\<lparr>out := out w @ [l]\<rparr>"

definition complain :: "line \<Rightarrow> world \<Rightarrow> world" where
  "complain l w = w\<lparr>err := err w @ [l]\<rparr>"

subsection \<open>\<^verbatim>\<open>download_file\<close>\<close>

text \<open>
  What one pass through the \<^verbatim>\<open>try\<close> body does, as the network and the disk decide it:
  the body arrives whole; or \<^verbatim>\<open>urlopen\<close> raises; or \<^verbatim>\<open>open\<close> raises; or reading or
  writing raises after some bytes went to the file. The string of a failure is
  \<^verbatim>\<open>str(e)\<close>.
\<close>

datatype attempt =
    Fetched string
  | Urlopen_raises string
  | Open_raises string
  | Stream_raises string string

fun attempt_error :: "attempt \<Rightarrow> string option" where
  "attempt_error (Fetched body) = None"
| "attempt_error (Urlopen_raises e) = Some e"
| "attempt_error (Open_raises e) = Some e"
| "attempt_error (Stream_raises part e) = Some e"

fun attempt_writes :: "string \<Rightarrow> attempt \<Rightarrow> fs_op list" where
  "attempt_writes dest (Fetched body) = [Write_file dest body]"
| "attempt_writes dest (Urlopen_raises e) = []"
| "attempt_writes dest (Open_raises e) = []"
| "attempt_writes dest (Stream_raises part e) = [Write_file dest part]"

text \<open>
  The \<^verbatim>\<open>for attempt in range(1, retries + 1)\<close> loop, with \<open>k\<close> the number of iterations
  still to run, so that \<open>attempt = retries - k + 1\<close>. \<open>net\<close> gives the fate of each attempt
  by its number. The delays are Python floats; they are modelled as rationals, which is
  exact for the default growth factor \<open>1.5\<close> (every delay is a dyadic fraction below 8).
  The \<^verbatim>\<open>timeout\<close> argument only reaches \<^verbatim>\<open>urlopen\<close> and is part of what \<open>net\<close> decides.
\<close>

fun download_loop ::
  "(nat \<Rightarrow> attempt) \<Rightarrow> string \<Rightarrow> string \<Rightarrow> int \<Rightarrow> rat \<Rightarrow> bool \<Rightarrow> nat \<Rightarrow> rat \<Rightarrow> world
    \<Rightarrow> bool \<times> world" where
  "download_loop net url dest retries backoff verbose 0 wait w = (False, w)"
| "download_loop net url dest retries backoff verbose (Suc k) wait w =
    (let attempt = nat retries - k;
         w1 = (if verbose then say (Download_attempt attempt url dest) w else w);
         w2 = w1\<lparr>requests := requests w1 @ [url],
                 fs_ops := fs_ops w1 @ attempt_writes dest (net attempt)\<rparr>
     in case attempt_error (net attempt) of
          None \<Rightarrow> (True, if verbose then say Download_success w2 else w2)
        | Some e \<Rightarrow>
            if int attempt = retries then (False, complain (Download_failed e) w2)
            else download_loop net url dest retries backoff verbose k (min (wait * backoff) 8)
                   (w2\<lparr>sleeps := sleeps w2 @ [wait]\<rparr>))"

definition download_file ::
  "(nat \<Rightarrow> attempt) \<Rightarrow> string \<Rightarrow> string \<Rightarrow> int \<Rightarrow> rat \<Rightarrow> bool \<Rightarrow> world \<Rightarrow> bool \<times> world" where
  "download_file net url dest retries backoff verbose w =
     download_loop net url dest retries backoff verbose (nat retries) 1 w"

text \<open>The delays the loop sleeps, \<open>n\<close> of them, starting from \<open>d\<close>.\<close>

primrec backoff_delays :: "rat \<Rightarrow> nat \<Rightarrow> rat \<Rightarrow> rat list" where
  "backoff_delays b 0 d = []"
| "backoff_delays b (Suc n) d = d # backoff_delays b n (min (d * b) 8)"


subsection \<open>Reading a decoded message the way Python does\<close>

text \<open>
  The push watcher probes the decoded message with \<^verbatim>\<open>.get\<close>, \<^verbatim>\<open>or\<close> and \<^verbatim>\<open>[0]\<close>. On a value
  of the wrong shape these raise; the exception is a value of the model.
\<close>

datatype py_error = AttributeError | TypeError | KeyError

fun truthy :: "json \<Rightarrow> bool" where
  "truthy JNull = False"
| "truthy (JBool b) = b"
| "truthy (JInt n) = (n \<noteq> 0)"
| "truthy (JFloat r) = (r \<noteq> 0)"
| "truthy (JStr s) = (s \<noteq> [])"
| "truthy (JArr xs) = (xs \<noteq> [])"
| "truthy (JObj kvs) = (kvs \<noteq> [])"

text \<open>\<^verbatim>\<open>v or {}\<close> and \<^verbatim>\<open>v or []\<close>.\<close>

definition or_dict :: "json \<Rightarrow> json" where
  "or_dict v = (if truthy v then v else JObj [])"

definition or_list :: "json \<Rightarrow> json" where
  "or_list v = (if truthy v then v else JArr [])"

text \<open>\<^verbatim>\<open>v.get(k)\<close>: only a \<^verbatim>\<open>dict\<close> has the method; a missing key gives \<^verbatim>\<open>None\<close>.\<close>

fun get :: "json \<Rightarrow> string \<Rightarrow> py_error + json" where
  "get (JObj kvs) k = Inr (case map_of kvs k of None \<Rightarrow> JNull | Some v \<Rightarrow> v)"
| "get v k = Inl AttributeError"

text \<open>\<^verbatim>\<open>urls[0] if urls else None\<close>.\<close>

fun first_or_none :: "json \<Rightarrow> py_error + json" where
  "first_or_none (JArr (x # xs)) = Inr x"
| "first_or_none (JStr (c # cs)) = Inr (JStr [c])"
| "first_or_none (JObj (kv # kvs)) = Inl KeyError"
| "first_or_none v = (if truthy v then Inl TypeError else Inr JNull)"

text \<open>\<^verbatim>\<open>v == 323\<close>: an \<^verbatim>\<open>int\<close> or a \<^verbatim>\<open>float\<close> of that value (\<^verbatim>\<open>True\<close> equals 1 only).\<close>

fun is_323 :: "json \<Rightarrow> bool" where
  "is_323 (JInt n) = (n = 323)"
| "is_323 (JFloat r) = (r = 323)"
| "is_323 v = False"

text \<open>
  Lines 163 to 166 of the script: the path a message carries. \<open>Inr None\<close> when the command
  code is not 323, \<open>Inr (Some got)\<close> when it is, \<open>Inl\<close> when probing the message raises.
\<close>

definition carried :: "json \<Rightarrow> py_error + json option" where
  "carried data =
     (case get (or_dict data) ''Data'' of
        Inl e \<Rightarrow> Inl e
      | Inr d0 \<Rightarrow>
          (case get (or_dict d0) ''Cmd'' of
             Inl e \<Rightarrow> Inl e
           | Inr cmd \<Rightarrow>
               if \<not> is_323 cmd then Inr None
               else (case get (or_dict d0) ''Data'' of
                       Inl e \<Rightarrow> Inl e
                     | Inr dd \<Rightarrow>
                         (case get (or_dict dd) ''Url'' of
                            Inl e \<Rightarrow> Inl e
                          | Inr u \<Rightarrow>
                              (case first_or_none (or_list u) of
                                 Inl e \<Rightarrow> Inl e
                               | Inr got \<Rightarrow> Inr (Some got))))))"

subsection \<open>\<^verbatim>\<open>make_export_cmd\<close>\<close>

text \<open>\<open>rid\<close> is \<^verbatim>\<open>uuid.uuid4().hex\<close> and \<open>now_ms\<close> is \<^verbatim>\<open>int(time.time() * 1000)\<close>.\<close>

definition make_export_cmd :: "string \<Rightarrow> string \<Rightarrow> int \<Rightarrow> json" where
  "make_export_cmd path rid now_ms =
     JObj [(''Id'', JStr ''''),
           (''Data'', JObj [(''Cmd'', JInt 323),
                            (''Data'', JObj [(''Url'', JArr [JStr path])]),
                            (''RequestID'', JStr rid),
                            (''MainboardID'', JStr ''''),
                            (''TimeStamp'', JInt now_ms),
                            (''From'', JInt 1)])]"

subsection \<open>The completion watch inside \<^verbatim>\<open>run\<close>\<close>

text \<open>
  The three tasks of \<^verbatim>\<open>run\<close> are scheduled cooperatively: between two \<^verbatim>\<open>await\<close>s a task
  runs alone. A run of the watch is therefore the sequence of task resumptions that
  happen before the overall deadline, each with what the task finds:
  \<^item> the push watcher's \<^verbatim>\<open>ws.recv()\<close> times out, raises, or yields a frame, which
    \<^verbatim>\<open>json.loads\<close> rejects (\<open>Not_json\<close>) or decodes;
  \<^item> the poll watcher finds its own deadline passed, or probes the URL;
  \<^item> the keepalive sends a ping, or fails to.
  When the sequence is used up, \<^verbatim>\<open>asyncio.wait\<close> reaches its timeout. With
  \<^verbatim>\<open>return_when=FIRST_COMPLETED\<close> the wait also ends as soon as one of the two watchers has
  finished, whatever is left of the sequence; the model lets no further step in between.
\<close>

datatype frame = Not_json | Json json

datatype event =
    Recv_timeout
  | Recv_error
  | Recv frame
  | Probe bool
  | Poll_expired
  | Ping bool

record watch =
  ws_ready :: bool
  http_ready :: bool
  tws_done :: bool
  thttp_done :: bool
  ka_done :: bool
  delay :: rat

definition watch0 :: watch where
  "watch0 = \<lparr>ws_ready = False, http_ready = False, tws_done = False, thttp_done = False,
              ka_done = False, delay = 3/2\<rparr>"

text \<open>One iteration of \<^verbatim>\<open>ws_waiter\<close>, from the \<^verbatim>\<open>await\<close> on.\<close>

fun ws_waiter :: "string \<Rightarrow> bool \<Rightarrow> event \<Rightarrow> watch \<times> world \<Rightarrow> watch \<times> world" where
  "ws_waiter target_mp4 verbose Recv_timeout (s, w) = (s, w)"
| "ws_waiter target_mp4 verbose Recv_error (s, w) =
     (s\<lparr>tws_done := True\<rparr>, if verbose then complain Ws_recv_error w else w)"
| "ws_waiter target_mp4 verbose (Recv Not_json) (s, w) = (s, w)"
| "ws_waiter target_mp4 verbose (Recv (Json data)) (s, w) =
     (case carried data of
        Inl e \<Rightarrow> (s\<lparr>tws_done := True\<rparr>, w)
      | Inr None \<Rightarrow> (s, w)
      | Inr (Some got) \<Rightarrow>
          (let w1 = (if verbose then say (Ws_323_for got) w else w)
           in if got = JStr target_mp4 then (s\<lparr>ws_ready := True, tws_done := True\<rparr>, w1)
              else (s, if verbose \<and> truthy got then complain (Ws_323_different got) w1 else w1)))"
| "ws_waiter target_mp4 verbose e (s, w) = (s, w)"

text \<open>One iteration of \<^verbatim>\<open>http_waiter\<close>; \<^verbatim>\<open>http_exists\<close> opens the URL.\<close>

fun http_waiter :: "string \<Rightarrow> event \<Rightarrow> watch \<times> world \<Rightarrow> watch \<times> world" where
  "http_waiter http_url Poll_expired (s, w) = (s\<lparr>thttp_done := True\<rparr>, w)"
| "http_waiter http_url (Probe b) (s, w) =
     (let w1 = w\<lparr>requests := requests w @ [http_url]\<rparr>
      in if b then (s\<lparr>http_ready := True, thttp_done := True\<rparr>, w1)
         else (s\<lparr>delay := min (delay s * (3/2)) 5\<rparr>, w1))"
| "http_waiter http_url e (s, w) = (s, w)"

text \<open>One round of \<^verbatim>\<open>keepalive\<close>: a failed send ends the task silently.\<close>

fun keepalive :: "event \<Rightarrow> watch \<times> world \<Rightarrow> watch \<times> world" where
  "keepalive (Ping sent_ok) (s, w) =
     (if ka_done s then (s, w)
      else if sent_ok then (s, w\<lparr>pings := pings w + 1\<rparr>)
      else (s\<lparr>ka_done := True\<rparr>, w))"
| "keepalive e (s, w) = (s, w)"

definition step :: "string \<Rightarrow> string \<Rightarrow> bool \<Rightarrow> event \<Rightarrow> watch \<times> world \<Rightarrow> watch \<times> world" where
  "step target_mp4 http_url verbose e sw =
     keepalive e (http_waiter http_url e (ws_waiter target_mp4 verbose e sw))"

text \<open>\<^verbatim>\<open>asyncio.wait({tws, thttp}, timeout=max_wait, return_when=FIRST_COMPLETED)\<close>.\<close>

fun wait :: "string \<Rightarrow> string \<Rightarrow> bool \<Rightarrow> event list \<Rightarrow> watch \<times> world \<Rightarrow> watch \<times> world" where
  "wait target_mp4 http_url verbose [] sw = sw"
| "wait target_mp4 http_url verbose (e # es) sw =
     (let sw' = step target_mp4 http_url verbose e sw
      in if tws_done (fst sw') \<or> thttp_done (fst sw') then sw'
         else wait target_mp4 http_url verbose es sw')"

subsection \<open>\<^verbatim>\<open>run\<close>\<close>

text \<open>\<^verbatim>\<open>os.path.basename\<close> and \<^verbatim>\<open>os.path.join\<close> of two parts, on POSIX paths.\<close>

definition basename :: "string \<Rightarrow> string" where
  "basename p = rev (takeWhile (\<lambda>c. c \<noteq> CHR ''/'') (rev p))"

definition path_join :: "string \<Rightarrow> string \<Rightarrow> string" where
  "path_join a b =
     (if b \<noteq> [] \<and> hd b = CHR ''/'' then b
      else if a = [] \<or> last a = CHR ''/'' then a @ b
      else a @ ''/'' @ b)"

text \<open>
  What \<^verbatim>\<open>run\<close> meets outside: whether the websocket connects and the trigger is sent (an
  exception there is not caught), the identifiers of the trigger, the resumptions of the
  watch, the answer of the probe after the watch (line 203), whether
  \<^verbatim>\<open>os.makedirs\<close> raises, and the fate of each download attempt.
\<close>

record env =
  connect_error :: "string option"
  send_error :: "string option"
  request_id :: string
  now_ms :: int
  schedule :: "event list"
  post_probe :: bool
  makedirs_error :: "string option"
  download_net :: "nat \<Rightarrow> attempt"

text \<open>
  How the process ends: the function returns, \<^verbatim>\<open>sys.exit(n)\<close> is called, or an exception
  nobody catches reaches the interpreter.
\<close>

datatype outcome = Returned | Exit nat | Raised string

fun exit_status :: "outcome \<Rightarrow> nat" where
  "exit_status Returned = 0"
| "exit_status (Exit n) = n"
| "exit_status (Raised e) = 1"

definition run ::
  "env \<Rightarrow> string \<Rightarrow> string \<Rightarrow> bool \<Rightarrow> int \<Rightarrow> bool \<Rightarrow> string \<Rightarrow> bool \<Rightarrow> world \<Rightarrow> outcome \<times> world" where
  "run env host target_mp4 check max_wait verbose download_dir url_only w =
     (let http_url = ''http://'' @ host @ target_mp4;
          filename = basename target_mp4;
          dest_path = path_join download_dir filename
      in case connect_error env of
           Some e \<Rightarrow> (Raised e, w)
         | None \<Rightarrow>
       (case send_error env of
           Some e \<Rightarrow> (Raised e, w)
         | None \<Rightarrow>
          (let w1 = say (Export_requested target_mp4)
                      (w\<lparr>sent := sent w @ [make_export_cmd target_mp4 (request_id env) (now_ms env)]\<rparr>);
               sw = wait target_mp4 http_url verbose (schedule env) (watch0, w1);
               s = fst sw;
               w2 = snd sw;
               ok = (ws_ready s \<or> http_ready s);
               probe_again = (ok \<and> check \<and> \<not> http_ready s);
               w3 = (if probe_again then w2\<lparr>requests := requests w2 @ [http_url]\<rparr> else w2);
               http_ready' = (http_ready s \<or> (probe_again \<and> post_probe env))
           in if \<not> ok then (Exit 1, complain (Timed_out max_wait target_mp4) w3)
              else
               (let w4 = say (Timelapse_ready http_url) w3;
                    w5 = (if check \<and> \<not> http_ready' then say Heads_up w4 else w4)
                in if url_only then (Returned, say (Download_url http_url) w5)
                   else
                    (case makedirs_error env of
                       Some e \<Rightarrow> (Raised e, w5)
                     | None \<Rightarrow>
                        (let w6 = w5\<lparr>fs_ops := fs_ops w5 @ [Makedirs download_dir]\<rparr>;
                             r = download_file (download_net env) http_url dest_path 5 (3/2) verbose w6
                         in if \<not> fst r then (Exit 2, complain (Download_failed_for http_url) (snd r))
                            else (Returned, say (Saved dest_path) (snd r))))))))"

subsection \<open>Vocabulary of the watch\<close>

text \<open>
  A push message qualifies when it carries command code 323 and the first element of its
  path list is the requested path (line 169).
\<close>

definition qualifying :: "string \<Rightarrow> event \<Rightarrow> bool" where
  "qualifying target_mp4 e =
     (case e of Recv (Json data) \<Rightarrow> carried data = Inr (Some (JStr target_mp4)) | _ \<Rightarrow> False)"

text \<open>
  The completion state of the specification, read off the two \<^verbatim>\<open>asyncio.Event\<close>s once the
  wait is over (line 201).
\<close>

datatype completion = ConfirmedByPush | ConfirmedByPoll | TimedOut

definition completion_state :: "watch \<Rightarrow> completion" where
  "completion_state s =
     (if ws_ready s then ConfirmedByPush else if http_ready s then ConfirmedByPoll else TimedOut)"

definition watch_result :: "string \<Rightarrow> event list \<Rightarrow> completion" where
  "watch_result target_mp4 evs = completion_state (fst (wait target_mp4 [] False evs (watch0, world0)))"

text \<open>
  A frame the push watcher passes over: not JSON, or a message with another command code,
  or a 323 message whose first path is not the requested one.
\<close>

definition passed_over :: "string \<Rightarrow> frame \<Rightarrow> bool" where
  "passed_over target_mp4 fr =
     (case fr of
        Not_json \<Rightarrow> True
      | Json data \<Rightarrow>
          (case carried data of
             Inl e \<Rightarrow> False
           | Inr None \<Rightarrow> True
           | Inr (Some got) \<Rightarrow> got \<noteq> JStr target_mp4))"

text \<open>The paths carried by the 323 messages among some frames, in order.\<close>

fun carried_paths :: "frame list \<Rightarrow> json list" where
  "carried_paths [] = []"
| "carried_paths (Not_json # frs) = carried_paths frs"
| "carried_paths (Json data # frs) =
     (case carried data of Inr (Some got) \<Rightarrow> got # carried_paths frs | _ \<Rightarrow> carried_paths frs)"

text \<open>An environment for the examples: everything works, nothing happens during the watch.\<close>

definition env0 :: env where
  "env0 = \<lparr>connect_error = None, send_error = None, request_id = ''5f1c'', now_ms = 1700000000000,
           schedule = [], post_probe = False, makedirs_error = None,
           download_net = (\<lambda>i. Fetched ''video'')\<rparr>"

subsection \<open>Example runs of the watch\<close>

definition quiet_schedule :: "event list" where
  "quiet_schedule =
     [Recv_timeout, Probe False, Recv Not_json,
      Recv (Json (make_export_cmd ''/local/aic_tlp/B.mp4'' ''77aa'' 1700000000500)),
      Ping True, Probe False]"

definition push_schedule :: "event list" where
  "push_schedule =
     [Probe False, Recv_timeout,
      Recv (Json (make_export_cmd ''/local/aic_tlp/A.mp4'' ''77aa'' 1700000000500)),
      Probe True]"

definition dropped_schedule :: "event list" where
  "dropped_schedule = [Recv_timeout, Probe False, Recv_error, Probe True]"

definition chatter :: "frame list" where
  "chatter =
     [Not_json,
      Json (JObj [(''Data'', JObj [(''Cmd'', JInt 1)])]),
      Json (make_export_cmd ''/local/aic_tlp/B.mp4'' ''77aa'' 1700000000500),
      Json JNull]"

subsection \<open>The regular expressions of \<^verbatim>\<open>parse_latest_from_listing\<close>\<close>

text \<open>
  Python's \<^verbatim>\<open>re\<close> is a backtracking matcher: it explores the ways a pattern can match in a
  fixed order and takes the first that succeeds. The model keeps that order. A position in
  the subject is a pair \<open>(b, a)\<close>: the text before it, reversed, and the text after it. A
  pattern element maps a position to the positions it can end at, most preferred first.
  Characters are 8-bit; the classes \<^verbatim>\<open>\s\<close>, \<^verbatim>\<open>\d\<close>, \<^verbatim>\<open>\w\<close> and the letter cases are those of
  ASCII.
\<close>

type_synonym pos = "string \<times> string"

text \<open>
  Under \<^verbatim>\<open>re.IGNORECASE\<close> a letter of a pattern matches itself and its other case. A literal
  is kept as the list of these pairs, \<open>ci\<close> of its text. The two patterns the script uses
  without the flag hold no letter.
\<close>

definition swap_case :: "char \<Rightarrow> char" where
  "swap_case c =
     (case map_of (zip (''abcdefghijklmnopqrstuvwxyz'' @ ''ABCDEFGHIJKLMNOPQRSTUVWXYZ'')
                       (''ABCDEFGHIJKLMNOPQRSTUVWXYZ'' @ ''abcdefghijklmnopqrstuvwxyz'')) c of
        Some d \<Rightarrow> d
      | None \<Rightarrow> c)"

definition ci :: "string \<Rightarrow> (char \<times> char) list" where
  "ci s = map (\<lambda>c. (c, swap_case c)) s"

definition is_digit :: "char \<Rightarrow> bool" where
  "is_digit c = (c \<in> set ''0123456789'')"

definition is_space :: "char \<Rightarrow> bool" where
  "is_space c = (c \<in> set [CHR '' '', CHR 0x09, CHR 0x0A, CHR 0x0B, CHR 0x0C, CHR 0x0D,
                           CHR 0x1C, CHR 0x1D, CHR 0x1E, CHR 0x1F])"

definition is_word :: "char \<Rightarrow> bool" where
  "is_word c = (c \<in> set ''abcdefghijklmnopqrstuvwxyzABCDEFGHIJKLMNOPQRSTUVWXYZ0123456789_'')"

datatype cclass =
    Any            \<comment> \<open>\<^verbatim>\<open>[\s\S]\<close>\<close>
  | Not_char char  \<comment> \<open>\<^verbatim>\<open>[^c]\<close>\<close>
  | Digit          \<comment> \<open>\<^verbatim>\<open>\d\<close>\<close>
  | Space          \<comment> \<open>\<^verbatim>\<open>\s\<close>\<close>

fun in_class :: "cclass \<Rightarrow> char \<Rightarrow> bool" where
  "in_class Any c = True"
| "in_class (Not_char x) c = (c \<noteq> x)"
| "in_class Digit c = is_digit c"
| "in_class Space c = is_space c"

datatype atom =
    Lit "(char \<times> char) list"    \<comment> \<open>literal text, each character with its other case\<close>
  | Many cclass     \<comment> \<open>\<^verbatim>\<open>c*\<close>, greedy\<close>
  | Many1 cclass    \<comment> \<open>\<^verbatim>\<open>c+\<close>, greedy\<close>
  | Few cclass      \<comment> \<open>\<^verbatim>\<open>c*?\<close>, lazy\<close>
  | Maybe "(char \<times> char) list"  \<comment> \<open>optional literal text, greedy\<close>
  | Word_boundary   \<comment> \<open>\<^verbatim>\<open>\b\<close>\<close>
  | End_of_string   \<comment> \<open>\<^verbatim>\<open>$\<close>\<close>

datatype rx =
    Atom atom
  | Not_ahead "atom list"  \<comment> \<open>\<^verbatim>\<open>(?!...)\<close>\<close>
  | Group "atom list"      \<comment> \<open>\<^verbatim>\<open>(...)\<close>, capturing\<close>

fun lit :: "(char \<times> char) list \<Rightarrow> pos \<Rightarrow> pos list" where
  "lit [] p = [p]"
| "lit (l # ls) (b, []) = []"
| "lit (l # ls) (b, c # cs) = (if c = fst l \<or> c = snd l then lit ls (c # b, cs) else [])"

fun many :: "(char \<Rightarrow> bool) \<Rightarrow> pos \<Rightarrow> pos list" where
  "many P (b, []) = [(b, [])]"
| "many P (b, c # cs) = (if P c then many P (c # b, cs) else []) @ [(b, c # cs)]"

fun many1 :: "(char \<Rightarrow> bool) \<Rightarrow> pos \<Rightarrow> pos list" where
  "many1 P (b, []) = []"
| "many1 P (b, c # cs) = (if P c then many P (c # b, cs) else [])"

fun few :: "(char \<Rightarrow> bool) \<Rightarrow> pos \<Rightarrow> pos list" where
  "few P (b, []) = [(b, [])]"
| "few P (b, c # cs) = (b, c # cs) # (if P c then few P (c # b, cs) else [])"

text \<open>\<^verbatim>\<open>\b\<close>: exactly one of the characters on the two sides is a word character.\<close>

fun at_boundary :: "pos \<Rightarrow> bool" where
  "at_boundary (b, a) =
     ((case b of [] \<Rightarrow> False | x # xs \<Rightarrow> is_word x) \<noteq> (case a of [] \<Rightarrow> False | y # ys \<Rightarrow> is_word y))"

text \<open>\<^verbatim>\<open>$\<close> without \<^verbatim>\<open>re.MULTILINE\<close>: at the end, or before a newline that ends the subject.\<close>

fun at_end :: "pos \<Rightarrow> bool" where
  "at_end (b, a) = (a = [] \<or> a = [CHR 0x0A])"

fun atom_alts :: "atom \<Rightarrow> pos \<Rightarrow> pos list" where
  "atom_alts (Lit l) p = lit l p"
| "atom_alts (Many c) p = many (in_class c) p"
| "atom_alts (Many1 c) p = many1 (in_class c) p"
| "atom_alts (Few c) p = few (in_class c) p"
| "atom_alts (Maybe l) p = lit l p @ [p]"
| "atom_alts Word_boundary p = (if at_boundary p then [p] else [])"
| "atom_alts End_of_string p = (if at_end p then [p] else [])"

fun atoms_alts :: "atom list \<Rightarrow> pos \<Rightarrow> pos list" where
  "atoms_alts [] p = [p]"
| "atoms_alts (x # xs) p = concat (map (atoms_alts xs) (atom_alts x p))"

text \<open>The text between two positions of one subject, the second not before the first.\<close>

fun between :: "pos \<Rightarrow> pos \<Rightarrow> string" where
  "between (b, a) (b', a') = take (length a - length a') a"

text \<open>
  All the ways a pattern matches from a position, most preferred first, each with the
  texts of its groups in order and the position where the match ends.
\<close>

fun rx_alts :: "rx list \<Rightarrow> pos \<Rightarrow> (string list \<times> pos) list" where
  "rx_alts [] p = [([], p)]"
| "rx_alts (Atom x # rs) p = concat (map (rx_alts rs) (atom_alts x p))"
| "rx_alts (Not_ahead xs # rs) p = (if atoms_alts xs p = [] then rx_alts rs p else [])"
| "rx_alts (Group xs # rs) p =
     concat (map (\<lambda>p'. map (\<lambda>r. (between p p' # fst r, snd r)) (rx_alts rs p')) (atoms_alts xs p))"

text \<open>\<^verbatim>\<open>pattern.match\<close> at a position: the first way, if there is one.\<close>

definition match_at :: "rx list \<Rightarrow> pos \<Rightarrow> (string list \<times> pos) option" where
  "match_at pat p = (case rx_alts pat p of [] \<Rightarrow> None | r # rest \<Rightarrow> Some r)"

text \<open>\<^verbatim>\<open>pattern.search\<close>: the first position, from left to right, where the pattern matches.\<close>

fun search :: "rx list \<Rightarrow> pos \<Rightarrow> (string list \<times> pos) option" where
  "search pat (b, []) = match_at pat (b, [])"
| "search pat (b, c # cs) =
     (case match_at pat (b, c # cs) of Some r \<Rightarrow> Some r | None \<Rightarrow> search pat (c # b, cs))"

text \<open>
  \<^verbatim>\<open>pattern.finditer\<close>: the matches from left to right, each search starting where the match
  before it ended. The first argument counts the characters still covered by the last
  match. None of the script's patterns matches the empty string, so the rule of \<^verbatim>\<open>re\<close> for
  empty matches is never used; the model steps over one character there.
\<close>

fun finditer :: "rx list \<Rightarrow> nat \<Rightarrow> pos \<Rightarrow> string list list" where
  "finditer pat (Suc k) (b, []) = []"
| "finditer pat (Suc k) (b, c # cs) = finditer pat k (c # b, cs)"
| "finditer pat 0 (b, []) = (case match_at pat (b, []) of None \<Rightarrow> [] | Some (caps, p') \<Rightarrow> [caps])"
| "finditer pat 0 (b, c # cs) =
     (case match_at pat (b, c # cs) of
        None \<Rightarrow> finditer pat 0 (c # b, cs)
      | Some (caps, p') \<Rightarrow> caps # finditer pat (length cs - length (snd p')) (c # b, cs))"

text \<open>
  \<^verbatim>\<open>re.sub(pattern, "", s)\<close>: the subject without the matches \<^verbatim>\<open>finditer\<close> finds.
\<close>

fun remove_matches :: "rx list \<Rightarrow> nat \<Rightarrow> pos \<Rightarrow> string" where
  "remove_matches pat (Suc k) (b, []) = []"
| "remove_matches pat (Suc k) (b, c # cs) = remove_matches pat k (c # b, cs)"
| "remove_matches pat 0 (b, []) = []"
| "remove_matches pat 0 (b, c # cs) =
     (case match_at pat (b, c # cs) of
        None \<Rightarrow> c # remove_matches pat 0 (c # b, cs)
      | Some (caps, p') \<Rightarrow>
          if length (snd p') \<le> length cs then remove_matches pat (length cs - length (snd p')) (c # b, cs)
          else c # remove_matches pat 0 (c # b, cs))"

text \<open>The five patterns of the script.\<close>

definition row_re :: "rx list" where
  \<open>row_re =
     [Atom (Lit (ci ''<tr'')), Atom Word_boundary, Atom (Many (Not_char CHR ''>'')), Atom (Lit (ci ''>'')),
      Group [Few Any], Atom (Lit (ci ''</tr>''))]\<close>

definition link_re :: "rx list" where
  \<open>link_re =
     [Atom (Lit (ci ''<a'')), Atom (Many (Not_char CHR ''>'')), Atom (Lit (ci ''href="'')),
      Not_ahead [Many (Not_char CHR 0x22), Lit (ci ''.mp4'')],
      Group [Many1 (Not_char CHR 0x22)], Atom (Lit (ci ''"'')),
      Atom (Many (Not_char CHR ''>'')), Atom (Lit (ci ''>'')),
      Group [Few Any], Atom (Lit (ci ''</a>''))]\<close>

definition td_name_re :: "rx list" where
  \<open>td_name_re =
     [Atom (Lit (ci ''<td'')), Atom (Many (Not_char CHR ''>'')), Atom Word_boundary, Atom (Lit (ci ''name'')),
      Atom (Many Space), Atom (Lit (ci ''='')), Atom (Many Space), Atom (Maybe (ci ''"'')),
      Group [Maybe (ci ''-''), Many1 Digit], Atom (Maybe (ci ''"'')),
      Atom (Many (Not_char CHR ''>'')), Atom (Lit (ci ''>''))]\<close>

definition int_re :: "rx list" where
  "int_re = [Atom (Maybe (ci ''-'')), Atom (Many1 Digit), Atom End_of_string]"

definition tag_re :: "rx list" where
  "tag_re = [Atom (Lit (ci ''<'')), Atom (Many (Not_char CHR ''>'')), Atom (Lit (ci ''>''))]"

subsection \<open>\<^verbatim>\<open>parse_latest_from_listing\<close>\<close>

text \<open>The dictionary \<^verbatim>\<open>{"name": .., "href": .., "modified": ..}\<close>.\<close>

record entry =
  name :: string
  href :: string
  modified :: int

text \<open>\<^verbatim>\<open>m.group(1)\<close> of a match, and \<^verbatim>\<open>findall\<close> for a pattern with one group.\<close>

definition group1 :: "string list \<Rightarrow> string" where
  "group1 caps = (case caps of [] \<Rightarrow> [] | g # gs \<Rightarrow> g)"

definition findall :: "rx list \<Rightarrow> string \<Rightarrow> string list" where
  "findall pat s = map group1 (finditer pat 0 ([], s))"

text \<open>\<^verbatim>\<open>str.strip()\<close>.\<close>

definition strip :: "string \<Rightarrow> string" where
  "strip s = rev (dropWhile is_space (rev (dropWhile is_space s)))"

text \<open>\<^verbatim>\<open>int(n)\<close> for a text of the form \<^verbatim>\<open>-?\d+\<close>, the only form it is called on (line 71).\<close>

definition digit_value :: "char \<Rightarrow> nat" where
  "digit_value c = length (takeWhile (\<lambda>d. d \<noteq> c) ''0123456789'')"

definition py_int :: "string \<Rightarrow> int" where
  "py_int n =
     (case n of
        [] \<Rightarrow> 0
      | c # cs \<Rightarrow>
          if c = CHR ''-'' then - int (foldl (\<lambda>v d. 10 * v + digit_value d) 0 cs)
          else int (foldl (\<lambda>v d. 10 * v + digit_value d) 0 (c # cs)))"

text \<open>
  \<^verbatim>\<open>link_re.search(row)\<close> with its two groups: the link target and the text of the anchor.
\<close>

definition groups2 :: "string list \<Rightarrow> (string \<times> string) option" where
  "groups2 caps = (case caps of [h, inner] \<Rightarrow> Some (h, inner) | _ \<Rightarrow> None)"

definition link_search :: "string \<Rightarrow> (string \<times> string) option" where
  "link_search row =
     (case search link_re ([], row) of None \<Rightarrow> None | Some r \<Rightarrow> groups2 (fst r))"

text \<open>
  \<^verbatim>\<open>[int(n) for n in td_name_re.findall(row) if re.match(r"-?\d+$", n)]\<close>
\<close>

definition td_vals :: "string \<Rightarrow> int list" where
  "td_vals row =
     map py_int (filter (\<lambda>n. match_at int_re ([], n) \<noteq> None) (findall td_name_re row))"

text \<open>The body of the \<^verbatim>\<open>for\<close> loop over the rows; \<open>latest\<close> is the running maximum.\<close>

definition latest_step :: "entry option \<Rightarrow> string \<Rightarrow> entry option" where
  "latest_step latest row =
     (case link_search row of
        None \<Rightarrow> latest
      | Some (h, inner) \<Rightarrow>
          (let stripped = strip (remove_matches tag_re 0 ([], inner));
               nm = (if stripped \<noteq> [] then stripped else h)
           in case td_vals row of
                [] \<Rightarrow> latest
              | m # ms \<Rightarrow>
                  (case latest of
                     None \<Rightarrow> Some \<lparr>name = nm, href = h, modified = m\<rparr>
                   | Some l \<Rightarrow>
                       if m > modified l then Some \<lparr>name = nm, href = h, modified = m\<rparr>
                       else latest)))"

definition parse_latest_from_listing :: "string \<Rightarrow> entry option" where
  "parse_latest_from_listing html = foldl latest_step None (findall row_re html)"

subsection \<open>\<^verbatim>\<open>find_latest_mp4_path\<close>\<close>

text \<open>
  What the resolver meets outside: \<^verbatim>\<open>urllib.parse.urljoin\<close> (a library function, taken as
  it is), the answer to the GET of the listing (the decoded text, or the text of the
  exception), and whether \<^verbatim>\<open>time.gmtime\<close> accepts a timestamp (it raises outside the
  platform's range; the script calls it in verbose mode only).
\<close>

record site =
  urljoin :: "string \<Rightarrow> string \<Rightarrow> string"
  http_get :: "string \<Rightarrow> string + string"
  gmtime_error :: "int \<Rightarrow> string option"

text \<open>\<^verbatim>\<open>p if p.endswith("/") else p + "/"\<close> and \<^verbatim>\<open>s[:-1] if s.endswith("/") else s\<close>.\<close>

definition with_slash :: "string \<Rightarrow> string" where
  "with_slash p = (if p \<noteq> [] \<and> last p = CHR ''/'' then p else p @ ''/'')"

definition strip_slash :: "string \<Rightarrow> string" where
  "strip_slash s = (if s \<noteq> [] \<and> last s = CHR ''/'' then butlast s else s)"

text \<open>Lines 106 to 113: the winning reference made absolute, without a trailing slash.\<close>

definition candidate_base :: "site \<Rightarrow> string \<Rightarrow> string \<Rightarrow> string" where
  "candidate_base st list_path h =
     strip_slash (if h \<noteq> [] \<and> hd h = CHR ''/'' then h else urljoin st (with_slash list_path) h)"

definition find_latest_mp4_path ::
  "site \<Rightarrow> string \<Rightarrow> string \<Rightarrow> bool \<Rightarrow> world \<Rightarrow> (outcome + string) \<times> world" where
  "find_latest_mp4_path st host list_path verbose w =
     (let base_url = ''http://'' @ host;
          page_url = urljoin st base_url (with_slash list_path);
          w1 = (if verbose then say (Latest_fetching page_url) w else w);
          w2 = w1\<lparr>requests := requests w1 @ [page_url]\<rparr>
      in case http_get st page_url of
           Inl e \<Rightarrow> (Inl (Exit 1), complain (Latest_fetch_failed e) w2)
         | Inr html \<Rightarrow>
             (case parse_latest_from_listing html of
                None \<Rightarrow> (Inl (Exit 1), complain Latest_no_entries w2)
              | Some latest \<Rightarrow>
                  (let vis_name = strip_slash (name latest);
                       mp4_path = candidate_base st list_path (href latest) @ ''.mp4''
                   in if verbose
                      then (case gmtime_error st (modified latest) of
                              Some e \<Rightarrow> (Inl (Raised e), w2)
                            | None \<Rightarrow>
                                (Inr mp4_path,
                                 say (Latest_resolved mp4_path)
                                   (say (Latest_item vis_name (href latest) (modified latest)) w2)))
                      else (Inr mp4_path, w2))))"

subsection \<open>\<^verbatim>\<open>main\<close>\<close>

text \<open>The parsed command line (\<^verbatim>\<open>argparse\<close> itself is not modelled).\<close>

record args =
  arg_host :: string
  arg_file :: "string option"
  arg_check :: bool
  arg_timeout :: int
  arg_verbose :: bool
  arg_latest :: bool
  arg_list_path :: string
  arg_out_dir :: string
  arg_url_only :: bool

definition main :: "args \<Rightarrow> site \<Rightarrow> env \<Rightarrow> world \<Rightarrow> outcome \<times> world" where
  "main a st env w =
     (if arg_latest a
      then (case find_latest_mp4_path st (arg_host a) (arg_list_path a) (arg_verbose a) w of
              (Inl stop, w') \<Rightarrow> (stop, w')
            | (Inr target_mp4, w') \<Rightarrow>
                run env (arg_host a) target_mp4 (arg_check a) (arg_timeout a) (arg_verbose a)
                  (arg_out_dir a) (arg_url_only a) w')
      else (case arg_file a of
              None \<Rightarrow> (Exit 2, complain Provide_file w)
            | Some f \<Rightarrow>
                if f = [] then (Exit 2, complain Provide_file w)
                else run env (arg_host a) (arg_list_path a @ f) (arg_check a) (arg_timeout a)
                       (arg_verbose a) (arg_out_dir a) (arg_url_only a) w))"

subsection \<open>\<^verbatim>\<open>urljoin\<close> on plain paths\<close>

text \<open>
  For the examples, \<^verbatim>\<open>urllib.parse.urljoin\<close> of CPython 3.12 (\<^verbatim>\<open>Lib/urllib/parse.py\<close>) where
  it is simple: the base is a plain path or \<^verbatim>\<open>http://host\<close> followed by a path, the
  reference is a plain path, and neither holds \<^verbatim>\<open>:\<close> (but for the scheme), \<^verbatim>\<open>?\<close>, \<^verbatim>\<open>#\<close>, \<^verbatim>\<open>;\<close>,
  a leading \<^verbatim>\<open>//\<close>, a space or a control character. Outside these inputs the function is
  not a model of the library.
\<close>

fun split_on :: "char \<Rightarrow> string \<Rightarrow> string list" where
  "split_on c [] = [[]]"
| "split_on c (x # xs) =
     (if x = c then [] # split_on c xs else (x # hd (split_on c xs)) # tl (split_on c xs))"

fun join_with :: "char \<Rightarrow> string list \<Rightarrow> string" where
  "join_with c [] = []"
| "join_with c [s] = s"
| "join_with c (s # t # ss) = s @ c # join_with c (t # ss)"

text \<open>\<^verbatim>\<open>segments[1:-1] = filter(None, segments[1:-1])\<close>\<close>

fun squeeze :: "string list \<Rightarrow> string list" where
  "squeeze [] = []"
| "squeeze [s] = [s]"
| "squeeze (s # t # ss) = s # filter (\<lambda>x. x \<noteq> []) (butlast (t # ss)) @ [last (t # ss)]"

text \<open>The loop over the segments; \<^verbatim>\<open>pop\<close> on an empty list is ignored.\<close>

fun resolve :: "string list \<Rightarrow> string list \<Rightarrow> string list" where
  "resolve resolved_path [] = resolved_path"
| "resolve resolved_path (seg # segs) =
     (if seg = ''..'' then resolve (butlast resolved_path) segs
      else if seg = ''.'' then resolve resolved_path segs
      else resolve (resolved_path @ [seg]) segs)"

definition split_http :: "string \<Rightarrow> string \<times> string \<times> string" where
  "split_http u =
     (if take 7 u = ''http://''
      then (''http'', takeWhile (\<lambda>c. c \<noteq> CHR ''/'') (drop 7 u), dropWhile (\<lambda>c. c \<noteq> CHR ''/'') (drop 7 u))
      else ([], [], u))"

definition unsplit :: "string \<Rightarrow> string \<Rightarrow> string \<Rightarrow> string" where
  "unsplit scheme netloc path =
     (let u = (if netloc \<noteq> [] \<or> (scheme \<noteq> [] \<and> take 2 path \<noteq> ''//'')
               then ''//'' @ netloc @ (if path \<noteq> [] \<and> hd path \<noteq> CHR ''/'' then ''/'' @ path else path)
               else path)
      in if scheme \<noteq> [] then scheme @ '':'' @ u else u)"

definition urljoin_plain :: "string \<Rightarrow> string \<Rightarrow> string" where
  "urljoin_plain base url =
     (if base = [] then url
      else if url = [] then base
      else
       (case split_http base of (bscheme, bnetloc, bpath) \<Rightarrow>
        (case split_http url of (scheme0, netloc, path) \<Rightarrow>
          (let scheme = (if scheme0 = [] then bscheme else scheme0)
           in if scheme \<noteq> bscheme then url
              else if netloc \<noteq> [] then unsplit scheme netloc path
              else if path = [] then unsplit scheme bnetloc bpath
              else
               (let parts = split_on CHR ''/'' bpath;
                    base_parts = (if last parts \<noteq> [] then butlast parts else parts);
                    segments = (if hd path = CHR ''/'' then split_on CHR ''/'' path
                                else squeeze (base_parts @ split_on CHR ''/'' path));
                    resolved = resolve [] segments;
                    resolved_path = (if last segments = ''.'' \<or> last segments = ''..''
                                     then resolved @ [[]] else resolved);
                    joined = join_with CHR ''/'' resolved_path
                in unsplit scheme bnetloc (if joined = [] then ''/'' else joined))))))"

text \<open>A printer for the examples: it serves one listing, whatever the URL.\<close>

definition site0 :: "string \<Rightarrow> site" where
  "site0 html = \<lparr>urljoin = urljoin_plain, http_get = (\<lambda>u. Inr html), gmtime_error = (\<lambda>t. None)\<rparr>"

subsection \<open>Vocabulary of the resolver\<close>

text \<open>
  The entry a row stands for, if it has a usable anchor and a parsed ordinal: what the
  loop body makes of the row when nothing was seen before it.
\<close>

definition row_entry :: "string \<Rightarrow> entry option" where
  "row_entry row = latest_step None row"

definition candidates :: "string \<Rightarrow> entry list" where
  "candidates html = List.map_filter row_entry (findall row_re html)"

text \<open>The comparison of line 76 on entries.\<close>

definition better :: "entry option \<Rightarrow> entry \<Rightarrow> entry option" where
  "better latest e =
     (case latest of None \<Rightarrow> Some e | Some l \<Rightarrow> if modified e > modified l then Some e else latest)"

text \<open>
  A literal matches at the start of a text; a text contains a literal; \<^verbatim>\<open>str.endswith\<close>.
\<close>

definition lit_ok :: "(char \<times> char) list \<Rightarrow> string \<Rightarrow> bool" where
  "lit_ok l s = (lit l ([], s) \<noteq> [])"

fun contains_lit :: "(char \<times> char) list \<Rightarrow> string \<Rightarrow> bool" where
  "contains_lit l [] = lit_ok l []"
| "contains_lit l (c # cs) = (lit_ok l (c # cs) \<or> contains_lit l cs)"

definition has_mp4 :: "string \<Rightarrow> bool" where
  "has_mp4 h = contains_lit (ci ''.mp4'') h"

definition ends_with :: "string \<Rightarrow> string \<Rightarrow> bool" where
  "ends_with s suffix = (length suffix \<le> length s \<and> drop (length s - length suffix) s = suffix)"

text \<open>
  The shape of an anchor with a link target: \<open>link_re\<close> without its lookahead, that is
  \<^verbatim>\<open><a[^>]*href="([^"]+)"[^>]*>([\s\S]*?)</a>\<close>. The anchors of a row are all the matches of this
  shape in the order in which the matcher tries them: by start from left to right and, from
  one start, in its order of preference.
\<close>

definition anchor_re :: "rx list" where
  \<open>anchor_re =
     [Atom (Lit (ci ''<a'')), Atom (Many (Not_char CHR ''>'')), Atom (Lit (ci ''href="'')),
      Group [Many1 (Not_char CHR 0x22)], Atom (Lit (ci ''"'')),
      Atom (Many (Not_char CHR ''>'')), Atom (Lit (ci ''>'')),
      Group [Few Any], Atom (Lit (ci ''</a>''))]\<close>

fun all_matches :: "rx list \<Rightarrow> pos \<Rightarrow> (string list \<times> pos) list" where
  "all_matches pat (b, []) = rx_alts pat (b, [])"
| "all_matches pat (b, c # cs) = rx_alts pat (b, c # cs) @ all_matches pat (c # b, cs)"

definition anchors :: "string \<Rightarrow> (string \<times> string) list" where
  "anchors row = List.map_filter (\<lambda>r. groups2 (fst r)) (all_matches anchor_re ([], row))"

text \<open>The number of capturing groups of a pattern.\<close>

fun n_groups :: "rx list \<Rightarrow> nat" where
  "n_groups [] = 0"
| "n_groups (Group xs # rs) = Suc (n_groups rs)"
| "n_groups (x # rs) = n_groups rs"

text \<open>
  \<open>link_re\<close> in three parts: up to the opening quote of the target, the lookahead, and
  from the target on. \<open>anchor_re\<close> is the first part followed by the third.
\<close>

definition link_head :: "atom list" where
  \<open>link_head = [Lit (ci ''<a''), Many (Not_char CHR ''>''), Lit (ci ''href="'')]\<close>

definition link_ahead :: "atom list" where
  "link_ahead = [Many (Not_char CHR 0x22), Lit (ci ''.mp4'')]"

definition link_tail :: "rx list" where
  \<open>link_tail =
     [Group [Many1 (Not_char CHR 0x22)], Atom (Lit (ci ''"'')),
      Atom (Many (Not_char CHR ''>'')), Atom (Lit (ci ''>'')),
      Group [Few Any], Atom (Lit (ci ''</a>''))]\<close>

subsection \<open>Example listings\<close>


definition foo_listing :: string where
  \<open>foo_listing = ''<tr><td name="7"><a href="/local/aic_tlp/FOO/">FOO/</a></td></tr>''\<close>

definition dot_listing :: string where
  \<open>dot_listing = ''<tr><td name="7"><a href="./">.</a></td></tr>''\<close>

definition bak_row :: string where
  \<open>bak_row = ''<td name="7"><a href="x.mp4.bak/">old</a><a href="B/">B</a></td>''\<close>

subsection \<open>Failure kinds\<close>

text \<open>
  The three failures of the specification, each told by the message the script prints for
  it; no other line of the script stands for a failure kind.
\<close>

datatype failure = Timed_out_waiting | Download_failed_after_retries | Could_not_resolve_latest

fun failure_of :: "line \<Rightarrow> failure option" where
  "failure_of (Timed_out n t) = Some Timed_out_waiting"
| "failure_of (Download_failed_for u) = Some Download_failed_after_retries"
| "failure_of (Latest_fetch_failed e) = Some Could_not_resolve_latest"
| "failure_of Latest_no_entries = Some Could_not_resolve_latest"
| "failure_of l = None"

fun failure_status :: "failure \<Rightarrow> nat" where
  "failure_status Timed_out_waiting = 1"
| "failure_status Download_failed_after_retries = 2"
| "failure_status Could_not_resolve_latest = 1"

text \<open>Command lines for the examples.\<close>

definition args0 :: args where
  "args0 = \<lparr>arg_host = ''printer'', arg_file = Some ''A.mp4'', arg_check = False, arg_timeout = 180,
            arg_verbose = False, arg_latest = False, arg_list_path = ''/local/aic_tlp/'',
            arg_out_dir = ''.'', arg_url_only = False\<rparr>"

definition site_down :: site where
  "site_down = \<lparr>urljoin = urljoin_plain, http_get = (\<lambda>u. Inl ''timed out''),
               gmtime_error = (\<lambda>t. None)\<rparr>"

text \<open>Lines 201 to 226 of \<^verbatim>\<open>run\<close> on their own: what follows the wait, from its state and world.\<close>

definition after_wait ::
  "env \<Rightarrow> string \<Rightarrow> string \<Rightarrow> bool \<Rightarrow> int \<Rightarrow> bool \<Rightarrow> string \<Rightarrow> bool \<Rightarrow> watch \<times> world \<Rightarrow> outcome \<times> world" where
  "after_wait env host target_mp4 check max_wait verbose download_dir url_only sw =
     (let http_url = ''http://'' @ host @ target_mp4;
          filename = basename target_mp4;
          dest_path = path_join download_dir filename;
          s = fst sw;
          w2 = snd sw;
          ok = (ws_ready s \<or> http_ready s);
          probe_again = (ok \<and> check \<and> \<not> http_ready s);
          w3 = (if probe_again then w2\<lparr>requests := requests w2 @ [http_url]\<rparr> else w2);
          http_ready' = (http_ready s \<or> (probe_again \<and> post_probe env))
      in if \<not> ok then (Exit 1, complain (Timed_out max_wait target_mp4) w3)
         else
          (let w4 = say (Timelapse_ready http_url) w3;
               w5 = (if check \<and> \<not> http_ready' then say Heads_up w4 else w4)
           in if url_only then (Returned, say (Download_url http_url) w5)
              else
               (case makedirs_error env of
                  Some e \<Rightarrow> (Raised e, w5)
                | None \<Rightarrow>
                   (let w6 = w5\<lparr>fs_ops := fs_ops w5 @ [Makedirs download_dir]\<rparr>;
                        r = download_file (download_net env) http_url dest_path 5 (3/2) verbose w6
                    in if \<not> fst r then (Exit 2, complain (Download_failed_for http_url) (snd r))
                       else (Returned, say (Saved dest_path) (snd r))))))"

definition env_refused :: env where
  "env_refused = env0\<lparr>schedule := [Probe True], download_net := (\<lambda>i. Urlopen_raises ''refused'')\<rparr>"

section \<open>Properties\<close>

subsection \<open>Properties of \<^verbatim>\<open>download_file\<close>\<close>

lemma backoff_delays_length: "length (backoff_delays b n d) = n"
  by (induction n arbitrary: d) auto










subsection \<open>Properties of the completion watch and of \<^verbatim>\<open>run\<close>\<close>

lemma step_frame:
  "fs_ops (snd (step t u v e sw)) = fs_ops (snd sw)
   \<and> sleeps (snd (step t u v e sw)) = sleeps (snd sw)
   \<and> sent (snd (step t u v e sw)) = sent (snd sw)"
proof (cases sw)
  case (Pair s w)
  show ?thesis
  proof (cases e)
    case (Recv fr)
    then show ?thesis using Pair
      by (cases fr) (auto simp: step_def say_def complain_def Let_def split: sum.splits option.splits)
  qed (auto simp: step_def say_def complain_def Let_def Pair)
qed

lemma wait_frame:
  "fs_ops (snd (wait t u v evs sw)) = fs_ops (snd sw)
   \<and> sleeps (snd (wait t u v evs sw)) = sleeps (snd sw)
   \<and> sent (snd (wait t u v evs sw)) = sent (snd sw)"
proof (induction evs arbitrary: sw)
  case Nil
  then show ?case by simp
next
  case (Cons e evs)
  show ?case
    using Cons.IH [of "step t u v e sw"] step_frame [of t u v e sw]
    by (simp add: Let_def)
qed

lemma step_err_grows: "\<exists>ls. err (snd (step t u v e sw)) = err (snd sw) @ ls"
proof (cases sw)
  case (Pair s w)
  show ?thesis
  proof (cases e)
    case (Recv fr)
    then show ?thesis using Pair
      by (cases fr) (auto simp: step_def say_def complain_def Let_def split: sum.splits option.splits)
  qed (auto simp: step_def say_def complain_def Let_def Pair)
qed

lemma step_out_grows: "\<exists>ls. out (snd (step t u v e sw)) = out (snd sw) @ ls"
proof (cases sw)
  case (Pair s w)
  show ?thesis
  proof (cases e)
    case (Recv fr)
    then show ?thesis using Pair
      by (cases fr) (auto simp: step_def say_def complain_def Let_def split: sum.splits option.splits)
  qed (auto simp: step_def say_def complain_def Let_def Pair)
qed

lemma step_flags:
  "fst (step t u v e (s, w)) = fst (step t u' v' e (s, w'))"
proof (cases e)
  case (Recv fr)
  then show ?thesis
    by (cases fr) (auto simp: step_def Let_def split: sum.splits option.splits)
qed (auto simp: step_def Let_def)

lemma wait_flags:
  "fst (wait t u v evs (s, w)) = fst (wait t u' v' evs (s, w'))"
proof (induction evs arbitrary: s w w')
  case Nil
  then show ?case by simp
next
  case (Cons e evs)
  obtain s1 w1 where a: "step t u v e (s, w) = (s1, w1)" by (cases "step t u v e (s, w)")
  obtain s2 w2 where b: "step t u' v' e (s, w') = (s2, w2)" by (cases "step t u' v' e (s, w')")
  from step_flags [of t u v e s w u' v' w'] a b have "s1 = s2" by simp
  with a b Cons.IH [of s1 w1 w2] show ?case by (simp add: Let_def)
qed

lemma step_unconfirmed:
  assumes "\<not> qualifying t e" "e \<noteq> Probe True"
  shows "ws_ready (fst (step t u v e sw)) = ws_ready (fst sw)
       \<and> http_ready (fst (step t u v e sw)) = http_ready (fst sw)"
proof (cases sw)
  case (Pair s w)
  show ?thesis
  proof (cases e)
    case (Recv fr)
    then show ?thesis using Pair assms
      by (cases fr) (auto simp: step_def qualifying_def Let_def split: sum.splits option.splits)
  qed (use assms in \<open>auto simp: step_def Let_def Pair\<close>)
qed

lemma wait_unconfirmed:
  assumes "\<forall>e \<in> set evs. \<not> qualifying t e \<and> e \<noteq> Probe True"
  shows "ws_ready (fst (wait t u v evs sw)) = ws_ready (fst sw)
       \<and> http_ready (fst (wait t u v evs sw)) = http_ready (fst sw)"
  using assms
proof (induction evs arbitrary: sw)
  case Nil
  then show ?case by simp
next
  case (Cons e evs)
  then have e: "\<not> qualifying t e" "e \<noteq> Probe True" by simp_all
  from Cons.prems have rest: "\<forall>e \<in> set evs. \<not> qualifying t e \<and> e \<noteq> Probe True" by simp
  show ?case
    using Cons.IH [OF rest, of "step t u v e sw"] step_unconfirmed [OF e, of u v sw]
    by (simp add: Let_def)
qed

lemma wait_err_grows: "\<exists>ls. err (snd (wait t u v evs sw)) = err (snd sw) @ ls"
proof (induction evs arbitrary: sw)
  case Nil
  then show ?case by simp
next
  case (Cons e evs)
  from step_err_grows [of t u v e sw] obtain l1
    where l1: "err (snd (step t u v e sw)) = err (snd sw) @ l1" by blast
  from Cons.IH [of "step t u v e sw"] obtain l2
    where l2: "err (snd (wait t u v evs (step t u v e sw))) = err (snd (step t u v e sw)) @ l2"
    by blast
  show ?case using l1 l2 by (auto simp: Let_def)
qed

lemma wait_out_grows: "\<exists>ls. out (snd (wait t u v evs sw)) = out (snd sw) @ ls"
proof (induction evs arbitrary: sw)
  case Nil
  then show ?case by simp
next
  case (Cons e evs)
  from step_out_grows [of t u v e sw] obtain l1
    where l1: "out (snd (step t u v e sw)) = out (snd sw) @ l1" by blast
  from Cons.IH [of "step t u v e sw"] obtain l2
    where l2: "out (snd (wait t u v evs (step t u v e sw))) = out (snd (step t u v e sw)) @ l2"
    by blast
  show ?case using l1 l2 by (auto simp: Let_def)
qed

lemma watch_result_flags:
  "watch_result t evs = completion_state (fst (wait t u v evs (watch0, w)))"
  unfolding watch_result_def using wait_flags [of t "[]" False evs watch0 world0 u v w] by simp

text \<open>
  C8. Take any run of the watch in which no resumption brings a qualifying push message or
  a successful probe, however the wait ends. Then the completion state is \<open>TimedOut\<close>, the
  process exits with status 1 after the timeout line on standard error, the file system
  and the download sleeps are untouched, and what the downloader and \<^verbatim>\<open>os.makedirs\<close> would
  have met plays no part: neither is called.
\<close>

theorem run_times_out_without_signal:
  assumes "connect_error env = None" and "send_error env = None"
    and "\<forall>e \<in> set (schedule env). \<not> qualifying target_mp4 e \<and> e \<noteq> Probe True"
  shows "watch_result target_mp4 (schedule env) = TimedOut
     \<and> fst (run env host target_mp4 check max_wait verbose download_dir url_only w) = Exit 1
     \<and> (\<exists>ls. err (snd (run env host target_mp4 check max_wait verbose download_dir url_only w))
               = err w @ ls @ [Timed_out max_wait target_mp4])
     \<and> fs_ops (snd (run env host target_mp4 check max_wait verbose download_dir url_only w)) = fs_ops w
     \<and> sleeps (snd (run env host target_mp4 check max_wait verbose download_dir url_only w)) = sleeps w
     \<and> (\<forall>n m. run (env\<lparr>download_net := n, makedirs_error := m\<rparr>) host target_mp4 check max_wait
                  verbose download_dir url_only w
               = run env host target_mp4 check max_wait verbose download_dir url_only w)"
proof -
  let ?u = "''http://'' @ host @ target_mp4"
  let ?w1 = "say (Export_requested target_mp4)
               (w\<lparr>sent := sent w @ [make_export_cmd target_mp4 (request_id env) (now_ms env)]\<rparr>)"
  let ?sw = "wait target_mp4 ?u verbose (schedule env) (watch0, ?w1)"
  have flags: "\<not> ws_ready (fst ?sw)" "\<not> http_ready (fst ?sw)"
    using wait_unconfirmed [OF assms(3), of ?u verbose "(watch0, ?w1)"] by (simp_all add: watch0_def)
  have r: "run env host target_mp4 check max_wait verbose download_dir url_only w
             = (Exit 1, complain (Timed_out max_wait target_mp4) (snd ?sw))"
    using flags assms(1,2) by (simp add: run_def Let_def)
  have r': "run (env\<lparr>download_net := n, makedirs_error := m\<rparr>) host target_mp4 check max_wait
              verbose download_dir url_only w
             = (Exit 1, complain (Timed_out max_wait target_mp4) (snd ?sw))" for n m
    using flags assms(1,2) by (simp add: run_def Let_def)
  from wait_err_grows [of target_mp4 ?u verbose "schedule env" "(watch0, ?w1)"]
  obtain ls where ls: "err (snd ?sw) = err w @ ls" by (auto simp: say_def)
  have "watch_result target_mp4 (schedule env) = TimedOut"
    using flags by (simp add: watch_result_flags [of _ _ ?u verbose ?w1] completion_state_def)
  moreover have "\<exists>ls. err (snd (run env host target_mp4 check max_wait verbose download_dir url_only w))
               = err w @ ls @ [Timed_out max_wait target_mp4]"
    using ls by (simp add: r complain_def)
  moreover have "fs_ops (snd (run env host target_mp4 check max_wait verbose download_dir url_only w)) = fs_ops w"
    "sleeps (snd (run env host target_mp4 check max_wait verbose download_dir url_only w)) = sleeps w"
    using wait_frame [of target_mp4 ?u verbose "schedule env" "(watch0, ?w1)"]
    by (simp_all add: r complain_def say_def)
  ultimately show ?thesis
    using r r' by simp
qed

text \<open>
  C10. In url-only mode, a run whose watch confirms returns normally; the last line on
  standard output is the download URL; the file system and the download sleeps are
  untouched; and what the downloader and \<^verbatim>\<open>os.makedirs\<close> would have met plays no part:
  neither is called.
\<close>

theorem run_url_only_leaves_files_alone:
  assumes "connect_error env = None" and "send_error env = None"
    and "watch_result target_mp4 (schedule env) \<noteq> TimedOut"
  shows "fst (run env host target_mp4 check max_wait verbose download_dir True w) = Returned
     \<and> (\<exists>ls. out (snd (run env host target_mp4 check max_wait verbose download_dir True w))
               = out w @ ls @ [Download_url (''http://'' @ host @ target_mp4)])
     \<and> fs_ops (snd (run env host target_mp4 check max_wait verbose download_dir True w)) = fs_ops w
     \<and> sleeps (snd (run env host target_mp4 check max_wait verbose download_dir True w)) = sleeps w
     \<and> (\<forall>n m. run (env\<lparr>download_net := n, makedirs_error := m\<rparr>) host target_mp4 check max_wait
                  verbose download_dir True w
               = run env host target_mp4 check max_wait verbose download_dir True w)"
proof -
  let ?u = "''http://'' @ host @ target_mp4"
  let ?w1 = "say (Export_requested target_mp4)
               (w\<lparr>sent := sent w @ [make_export_cmd target_mp4 (request_id env) (now_ms env)]\<rparr>)"
  let ?sw = "wait target_mp4 ?u verbose (schedule env) (watch0, ?w1)"
  let ?again = "check \<and> \<not> http_ready (fst ?sw)"
  let ?w3 = "if ?again then (snd ?sw)\<lparr>requests := requests (snd ?sw) @ [?u]\<rparr> else snd ?sw"
  let ?w4 = "say (Timelapse_ready ?u) ?w3"
  let ?w5 = "if check \<and> \<not> (http_ready (fst ?sw) \<or> ?again \<and> post_probe env) then say Heads_up ?w4 else ?w4"
  have ok: "ws_ready (fst ?sw) \<or> http_ready (fst ?sw)"
    using assms(3) by (auto simp: watch_result_flags [of _ _ ?u verbose ?w1] completion_state_def split: if_splits)
  have r: "run env host target_mp4 check max_wait verbose download_dir True w
             = (Returned, say (Download_url ?u) ?w5)"
    using ok assms(1,2) by (auto simp: run_def Let_def)
  have r': "run (env\<lparr>download_net := n, makedirs_error := m\<rparr>) host target_mp4 check max_wait
              verbose download_dir True w
             = (Returned, say (Download_url ?u) ?w5)" for n m
    using ok assms(1,2) by (auto simp: run_def Let_def)
  from wait_out_grows [of target_mp4 ?u verbose "schedule env" "(watch0, ?w1)"]
  obtain ls where ls: "out (snd ?sw) = out w @ [Export_requested target_mp4] @ ls"
    by (auto simp: say_def)
  have "\<exists>ls. out (say (Download_url ?u) ?w5) = out w @ ls @ [Download_url ?u]"
    using ls by (auto simp: say_def)
  moreover have "fs_ops (say (Download_url ?u) ?w5) = fs_ops w" "sleeps (say (Download_url ?u) ?w5) = sleeps w"
    using wait_frame [of target_mp4 ?u verbose "schedule env" "(watch0, ?w1)"]
    by (simp_all add: say_def)
  ultimately show ?thesis
    using r r' by simp
qed

lemma carried_make_export_cmd: "carried (make_export_cmd p r t) = Inr (Some (JStr p))"
  by (simp add: carried_def make_export_cmd_def or_dict_def or_list_def)

lemma quiet_schedule_unconfirmed:
  "\<forall>e \<in> set quiet_schedule. \<not> qualifying ''/local/aic_tlp/A.mp4'' e \<and> e \<noteq> Probe True"
  by (simp add: quiet_schedule_def qualifying_def carried_make_export_cmd)

text \<open>C8 on a run that ends by the deadline with two failed probes and a message for another file.\<close>

theorem run_times_out_without_signal_witness:
  "watch_result ''/local/aic_tlp/A.mp4'' quiet_schedule = TimedOut
   \<and> fst (run (env0\<lparr>schedule := quiet_schedule\<rparr>) ''printer'' ''/local/aic_tlp/A.mp4''
             False 5 False ''out'' False world0) = Exit 1
   \<and> fs_ops (snd (run (env0\<lparr>schedule := quiet_schedule\<rparr>) ''printer'' ''/local/aic_tlp/A.mp4''
             False 5 False ''out'' False world0)) = []"
proof -
  have a: "connect_error (env0\<lparr>schedule := quiet_schedule\<rparr>) = None"
    and b: "send_error (env0\<lparr>schedule := quiet_schedule\<rparr>) = None"
    and c: "\<forall>e \<in> set (schedule (env0\<lparr>schedule := quiet_schedule\<rparr>)).
              \<not> qualifying ''/local/aic_tlp/A.mp4'' e \<and> e \<noteq> Probe True"
    using quiet_schedule_unconfirmed by (simp_all add: env0_def)
  from run_times_out_without_signal [OF a b c, of "''printer''" False 5 False "''out''" False world0]
  show ?thesis by (simp add: world0_def)
qed

lemma push_schedule_result: "watch_result ''/local/aic_tlp/A.mp4'' push_schedule = ConfirmedByPush"
  by (simp add: watch_result_def push_schedule_def step_def carried_make_export_cmd watch0_def
        completion_state_def Let_def)

text \<open>C10 on a run confirmed by a push message.\<close>

theorem run_url_only_leaves_files_alone_witness:
  "fst (run (env0\<lparr>schedule := push_schedule\<rparr>) ''printer'' ''/local/aic_tlp/A.mp4''
             True 180 False ''out'' True world0) = Returned
   \<and> fs_ops (snd (run (env0\<lparr>schedule := push_schedule\<rparr>) ''printer'' ''/local/aic_tlp/A.mp4''
             True 180 False ''out'' True world0)) = []
   \<and> last (out (snd (run (env0\<lparr>schedule := push_schedule\<rparr>) ''printer'' ''/local/aic_tlp/A.mp4''
             True 180 False ''out'' True world0))) = Download_url ''http://printer/local/aic_tlp/A.mp4''"
proof -
  have a: "connect_error (env0\<lparr>schedule := push_schedule\<rparr>) = None"
    and b: "send_error (env0\<lparr>schedule := push_schedule\<rparr>) = None"
    and c: "watch_result ''/local/aic_tlp/A.mp4'' (schedule (env0\<lparr>schedule := push_schedule\<rparr>)) \<noteq> TimedOut"
    using push_schedule_result by (simp_all add: env0_def)
  from run_url_only_leaves_files_alone [OF a b c, of "''printer''" True 180 False "''out''" world0]
  show ?thesis by (auto simp: world0_def)
qed

text \<open>
  C1 does not hold on the code. A receive that raises ends \<^verbatim>\<open>ws_waiter\<close>; the finished task
  completes \<^verbatim>\<open>asyncio.wait\<close>, the poll watcher is cancelled, and the run exits with the
  timeout message at once, although the probe that was due next would have succeeded
  before the deadline. Without the failed receive the same run is confirmed by the poll.
\<close>

theorem recv_error_ends_watch:
  "run (env0\<lparr>schedule := dropped_schedule\<rparr>) ''printer'' ''/local/aic_tlp/A.mp4''
       False 180 False ''out'' False world0
     = (Exit 1,
        world0\<lparr>out := [Export_requested ''/local/aic_tlp/A.mp4''],
               err := [Timed_out 180 ''/local/aic_tlp/A.mp4''],
               requests := [''http://printer/local/aic_tlp/A.mp4''],
               sent := [make_export_cmd ''/local/aic_tlp/A.mp4'' ''5f1c'' 1700000000000]\<rparr>)
   \<and> watch_result ''/local/aic_tlp/A.mp4'' dropped_schedule = TimedOut
   \<and> watch_result ''/local/aic_tlp/A.mp4'' [Recv_timeout, Probe False, Probe True] = ConfirmedByPoll"
  by (simp add: run_def env0_def dropped_schedule_def step_def watch0_def world0_def say_def
        complain_def watch_result_def completion_state_def Let_def)

lemma step_push_unset:
  assumes "\<not> qualifying t e"
  shows "ws_ready (fst (step t u v e sw)) = ws_ready (fst sw)"
proof (cases sw)
  case (Pair s w)
  show ?thesis
  proof (cases e)
    case (Recv fr)
    then show ?thesis using Pair assms
      by (cases fr) (auto simp: step_def qualifying_def Let_def split: sum.splits option.splits)
  qed (auto simp: step_def Let_def Pair)
qed

lemma wait_push_unset:
  assumes "\<forall>e \<in> set evs. \<not> qualifying t e"
  shows "ws_ready (fst (wait t u v evs sw)) = ws_ready (fst sw)"
  using assms
proof (induction evs arbitrary: sw)
  case Nil
  then show ?case by simp
next
  case (Cons e evs)
  then have e: "\<not> qualifying t e" and rest: "\<forall>e \<in> set evs. \<not> qualifying t e" by simp_all
  show ?case
    using Cons.IH [OF rest, of "step t u v e sw"] step_push_unset [OF e, of u v sw]
    by (simp add: Let_def)
qed

lemma step_passed_over:
  assumes "passed_over t fr"
  shows "step t u v (Recv fr) (s, w) =
     (s, if v then w\<lparr>out := out w @ map Ws_323_for (carried_paths [fr]),
                     err := err w @ map Ws_323_different (filter truthy (carried_paths [fr]))\<rparr>
         else w)"
proof (cases fr)
  case Not_json
  then show ?thesis by (simp add: step_def)
next
  case (Json data)
  with assms show ?thesis
    by (auto simp: step_def passed_over_def say_def complain_def Let_def
          split: sum.splits option.splits)
qed

lemma carried_paths_Cons: "carried_paths (fr # frs) = carried_paths [fr] @ carried_paths frs"
  by (cases fr) (auto split: sum.splits option.splits)

lemma wait_passed_over:
  assumes "\<forall>fr \<in> set frs. passed_over t fr" and "\<not> tws_done s" and "\<not> thttp_done s"
  shows "wait t u v (map Recv frs) (s, w) =
     (s, if v then w\<lparr>out := out w @ map Ws_323_for (carried_paths frs),
                     err := err w @ map Ws_323_different (filter truthy (carried_paths frs))\<rparr>
         else w)"
  using assms(1)
proof (induction frs arbitrary: w)
  case Nil
  then show ?case by simp
next
  case (Cons fr frs)
  then have fr: "passed_over t fr" and rest: "\<forall>fr \<in> set frs. passed_over t fr" by simp_all
  let ?w1 = "if v then w\<lparr>out := out w @ map Ws_323_for (carried_paths [fr]),
                     err := err w @ map Ws_323_different (filter truthy (carried_paths [fr]))\<rparr>
         else w"
  have "wait t u v (map Recv (fr # frs)) (s, w) = wait t u v (map Recv frs) (s, ?w1)"
    using step_passed_over [OF fr, of u v s w] assms(2,3) by (simp add: Let_def)
  also have "\<dots> = (s, if v then ?w1\<lparr>out := out ?w1 @ map Ws_323_for (carried_paths frs),
                     err := err ?w1 @ map Ws_323_different (filter truthy (carried_paths frs))\<rparr>
         else ?w1)"
    by (rule Cons.IH [OF rest])
  also have "\<dots> = (s, if v then w\<lparr>out := out w @ map Ws_323_for (carried_paths (fr # frs)),
                     err := err w @ map Ws_323_different (filter truthy (carried_paths (fr # frs)))\<rparr>
         else w)"
    by (simp add: carried_paths_Cons [of fr frs])
  finally show ?case .
qed

text \<open>
  C7, as the code has it. Frames that are not JSON, messages with another command code
  and 323 messages for another path leave the watch state as it was: nothing is
  confirmed and the push watcher goes on. Without \<^verbatim>\<open>--verbose\<close> nothing is printed; with
  it, every 323 message is reported on standard output, and on standard error too when
  its path is not empty. More generally, whatever happens during the watch, the push
  confirmation is not set unless a 323 message for the requested path arrives.
\<close>

theorem push_watcher_passes_over:
  assumes "\<forall>fr \<in> set frs. passed_over target_mp4 fr"
  shows "wait target_mp4 http_url verbose (map Recv frs) (watch0, w) =
           (watch0,
            if verbose
            then w\<lparr>out := out w @ map Ws_323_for (carried_paths frs),
                   err := err w @ map Ws_323_different (filter truthy (carried_paths frs))\<rparr>
            else w)
       \<and> \<not> ws_ready (fst (wait target_mp4 http_url verbose (map Recv frs) (watch0, w)))
       \<and> \<not> tws_done (fst (wait target_mp4 http_url verbose (map Recv frs) (watch0, w)))
       \<and> (\<forall>evs. (\<forall>e \<in> set evs. \<not> qualifying target_mp4 e) \<longrightarrow>
              \<not> ws_ready (fst (wait target_mp4 http_url verbose evs (watch0, w))))"
proof -
  have "wait target_mp4 http_url verbose (map Recv frs) (watch0, w) =
           (watch0,
            if verbose
            then w\<lparr>out := out w @ map Ws_323_for (carried_paths frs),
                   err := err w @ map Ws_323_different (filter truthy (carried_paths frs))\<rparr>
            else w)"
    using wait_passed_over [OF assms, of watch0 http_url verbose w] by (simp add: watch0_def)
  moreover have "\<not> ws_ready (fst (wait target_mp4 http_url verbose evs (watch0, w)))"
    if "\<forall>e \<in> set evs. \<not> qualifying target_mp4 e" for evs
    using wait_push_unset [OF that, of http_url verbose "(watch0, w)"] by (simp add: watch0_def)
  ultimately show ?thesis by (simp add: watch0_def)
qed

lemma carried_other_cmd: "carried (JObj [(''Data'', JObj [(''Cmd'', JInt 1)])]) = Inr None"
  by (simp add: carried_def or_dict_def)

lemma carried_null: "carried JNull = Inr None"
  by (simp add: carried_def or_dict_def)

lemma chatter_passed_over: "\<forall>fr \<in> set chatter. passed_over ''/local/aic_tlp/A.mp4'' fr"
  by (simp add: chatter_def passed_over_def carried_make_export_cmd carried_other_cmd carried_null)

text \<open>C7 on four frames, one of them a 323 message for another file, in verbose mode.\<close>

theorem push_watcher_passes_over_witness:
  "wait ''/local/aic_tlp/A.mp4'' ''http://printer/local/aic_tlp/A.mp4'' True (map Recv chatter)
       (watch0, world0)
     = (watch0, world0\<lparr>out := [Ws_323_for (JStr ''/local/aic_tlp/B.mp4'')],
                        err := [Ws_323_different (JStr ''/local/aic_tlp/B.mp4'')]\<rparr>)"
proof -
  have paths: "carried_paths chatter = [JStr ''/local/aic_tlp/B.mp4'']"
    by (simp add: chatter_def carried_make_export_cmd carried_other_cmd carried_null)
  from push_watcher_passes_over [OF chatter_passed_over, of "''http://printer/local/aic_tlp/A.mp4''" True world0]
  show ?thesis by (simp add: paths world0_def)
qed

text \<open>
  C7 as the specification words it does not hold: without \<^verbatim>\<open>--verbose\<close> a 323 message for
  another file is not logged.
\<close>

theorem push_watcher_silent_by_default:
  "wait ''/local/aic_tlp/A.mp4'' ''http://printer/local/aic_tlp/A.mp4'' False
       [Recv (Json (make_export_cmd ''/local/aic_tlp/B.mp4'' ''77aa'' 1700000000500))]
       (watch0, world0)
     = (watch0, world0)"
  by (simp add: step_def carried_make_export_cmd watch0_def Let_def)

text \<open>
  A decoded message that is not an object (here the JSON text \<^verbatim>\<open>[1]\<close>) makes \<^verbatim>\<open>.get\<close> raise
  outside any \<^verbatim>\<open>try\<close>: the push watcher ends, and with it the wait.
\<close>

lemma push_watcher_raises_on_non_object:
  "carried (JArr [JInt 1]) = Inl AttributeError
   \<and> tws_done (fst (wait ''/local/aic_tlp/A.mp4'' ''http://printer/local/aic_tlp/A.mp4'' False
                       [Recv (Json (JArr [JInt 1])), Probe True] (watch0, world0)))
   \<and> watch_result ''/local/aic_tlp/A.mp4'' [Recv (Json (JArr [JInt 1])), Probe True] = TimedOut"
  by (simp add: step_def carried_def or_dict_def watch0_def watch_result_def completion_state_def Let_def)

subsection \<open>Properties of \<^verbatim>\<open>parse_latest_from_listing\<close>\<close>


lemma row_entry_Some:
  "row_entry row = Some e \<Longrightarrow>
     (\<exists>inner ms. link_search row = Some (href e, inner) \<and> td_vals row = modified e # ms)"
  by (auto simp: row_entry_def latest_step_def Let_def split: option.splits list.splits)

lemma latest_step_better:
  "latest_step latest row = (case row_entry row of None \<Rightarrow> latest | Some e \<Rightarrow> better latest e)"
  by (auto simp: row_entry_def latest_step_def better_def Let_def split: option.splits list.splits)

lemma foldl_latest_step:
  "foldl latest_step latest rows = foldl better latest (List.map_filter row_entry rows)"
proof (induction rows arbitrary: latest)
  case Nil
  then show ?case by (simp add: List.map_filter_simps)
next
  case (Cons row rows)
  have "foldl latest_step latest (row # rows) = foldl latest_step (latest_step latest row) rows"
    by simp
  also have "\<dots> = foldl better (latest_step latest row) (List.map_filter row_entry rows)"
    by (rule Cons.IH)
  also have "\<dots> = foldl better latest (List.map_filter row_entry (row # rows))"
    by (cases "row_entry row") (simp_all add: latest_step_better [of latest row] List.map_filter_simps)
  finally show ?case .
qed

lemma foldl_better_keeps:
  "\<forall>x \<in> set es. modified x \<le> modified e \<Longrightarrow> foldl better (Some e) es = Some e"
  by (induction es) (simp_all add: better_def)

lemma foldl_better_below:
  "\<forall>x \<in> set es. modified x < m \<Longrightarrow> (case latest of None \<Rightarrow> True | Some l \<Rightarrow> modified l < m) \<Longrightarrow>
     (case foldl better latest es of None \<Rightarrow> True | Some l \<Rightarrow> modified l < m)"
proof (induction es arbitrary: latest)
  case Nil
  then show ?case by simp
next
  case (Cons x es)
  have "case better latest x of None \<Rightarrow> True | Some l \<Rightarrow> modified l < m"
    using Cons.prems by (auto simp: better_def split: option.splits)
  with Cons.IH [of "better latest x"] Cons.prems(1) show ?case by simp
qed

lemma foldl_better_first_max:
  assumes "\<forall>x \<in> set pre. modified x < modified e" and "\<forall>x \<in> set post. modified x \<le> modified e"
  shows "foldl better None (pre @ e # post) = Some e"
proof -
  have "case foldl better None pre of None \<Rightarrow> True | Some l \<Rightarrow> modified l < modified e"
    using foldl_better_below [OF assms(1), of None] by simp
  then have "better (foldl better None pre) e = Some e"
    by (auto simp: better_def split: option.splits)
  then show ?thesis
    using foldl_better_keeps [OF assms(2)] by simp
qed

lemma first_max_exists:
  "es \<noteq> [] \<Longrightarrow> \<exists>pre e post. es = pre @ e # post
      \<and> (\<forall>x \<in> set pre. modified x < modified e) \<and> (\<forall>x \<in> set post. modified x \<le> modified e)"
proof (induction es)
  case Nil
  then show ?case by simp
next
  case (Cons x xs)
  show ?case
  proof (cases "xs = []")
    case True
    then show ?thesis by (intro exI [of _ "[]"] exI [of _ x]) simp
  next
    case False
    from Cons.IH [OF False] obtain pre e post where d: "xs = pre @ e # post"
      "\<forall>y \<in> set pre. modified y < modified e" "\<forall>y \<in> set post. modified y \<le> modified e"
      by blast
    show ?thesis
    proof (cases "modified e \<le> modified x")
      case True
      have "\<forall>y \<in> set xs. modified y \<le> modified x"
        using d True by fastforce
      then show ?thesis by (intro exI [of _ "[]"] exI [of _ x] exI [of _ xs]) simp
    next
      case False
      then show ?thesis
        using d by (intro exI [of _ "x # pre"] exI [of _ e] exI [of _ post]) simp
    qed
  qed
qed

lemma find_after_none: "find P xs = None \<Longrightarrow> find P (xs @ ys) = find P ys"
  by (induction xs) (auto split: if_splits)

lemma find_first_max:
  assumes "\<forall>x \<in> set pre. modified x < modified e" and "\<forall>x \<in> set post. modified x \<le> modified e"
  shows "find (\<lambda>c. \<forall>c' \<in> set (pre @ e # post). modified c' \<le> modified c) (pre @ e # post) = Some e"
proof -
  let ?P = "\<lambda>c. \<forall>c' \<in> set (pre @ e # post). modified c' \<le> modified c"
  have "\<not> ?P x" if "x \<in> set pre" for x
    using that assms(1) by (auto intro!: bexI [of _ e])
  then have "find ?P pre = None" by (simp add: find_None_iff)
  moreover have "?P e" using assms by (auto intro: less_imp_le)
  ultimately show ?thesis by (simp add: find_after_none)
qed

lemma foldl_better_find:
  "foldl better None es = find (\<lambda>c. \<forall>c' \<in> set es. modified c' \<le> modified c) es"
proof (cases "es = []")
  case True
  then show ?thesis by simp
next
  case False
  from first_max_exists [OF False] obtain pre e post where d: "es = pre @ e # post"
    "\<forall>y \<in> set pre. modified y < modified e" "\<forall>y \<in> set post. modified y \<le> modified e"
    by blast
  show ?thesis
    unfolding d(1) using foldl_better_first_max [OF d(2,3)] find_first_max [OF d(2,3)] by simp
qed




subsection \<open>Properties of the anchor pattern\<close>

lemma lit_before: "lit l (b, a) = [] \<longleftrightarrow> lit l (b', a) = []"
proof (induction l arbitrary: b b' a)
  case Nil
  then show ?case by simp
next
  case (Cons x l)
  show ?case
  proof (cases a)
    case Nil
    then show ?thesis by simp
  next
    case (Cons c cs)
    then show ?thesis using Cons.IH [of "c # b" cs "c # b'"] by simp
  qed
qed

lemma lit_ok_before: "lit l (b, a) \<noteq> [] \<longleftrightarrow> lit_ok l a"
  unfolding lit_ok_def using lit_before [of l b a "[]"] by simp

lemma lit_ok_Cons:
  "lit_ok (x # l) s \<longleftrightarrow> (\<exists>c cs. s = c # cs \<and> (c = fst x \<or> c = snd x) \<and> lit_ok l cs)"
proof (cases s)
  case Nil
  then show ?thesis by (simp add: lit_ok_def)
next
  case (Cons c cs)
  then show ?thesis
    using lit_ok_before [of l "[c]" cs] by (simp add: lit_ok_def)
qed

lemma lit_ok_Nil: "lit_ok [] s"
  by (simp add: lit_ok_def)

lemma lit_ok_append: "lit_ok l s \<Longrightarrow> lit_ok l (s @ t)"
proof (induction l arbitrary: s)
  case Nil
  then show ?case by (simp add: lit_ok_Nil)
next
  case (Cons x l)
  then show ?case by (auto simp: lit_ok_Cons)
qed

lemma contains_lit_iff: "contains_lit l s \<longleftrightarrow> (\<exists>p r. s = p @ r \<and> lit_ok l r)"
proof (induction s)
  case Nil
  then show ?case by simp
next
  case (Cons c cs)
  show ?case
  proof
    assume "contains_lit l (c # cs)"
    then consider "lit_ok l (c # cs)" | "contains_lit l cs" by auto
    then show "\<exists>p r. c # cs = p @ r \<and> lit_ok l r"
    proof cases
      case 1
      then show ?thesis by (intro exI [of _ "[]"] exI [of _ "c # cs"]) simp
    next
      case 2
      with Cons.IH obtain p r where "cs = p @ r" "lit_ok l r" by blast
      then show ?thesis by (intro exI [of _ "c # p"] exI [of _ r]) simp
    qed
  next
    assume "\<exists>p r. c # cs = p @ r \<and> lit_ok l r"
    then obtain p r where d: "c # cs = p @ r" "lit_ok l r" by blast
    show "contains_lit l (c # cs)"
    proof (cases p)
      case Nil
      with d have "r = c # cs" by simp
      with d(2) show ?thesis by simp
    next
      case (Cons x p')
      with d have "cs = p' @ r" by simp
      with d(2) Cons.IH show ?thesis by auto
    qed
  qed
qed

lemma many_set:
  "set (many P (b, a)) = {(rev p @ b, r) | p r. a = p @ r \<and> (\<forall>c \<in> set p. P c)}"
proof (induction a arbitrary: b)
  case Nil
  then show ?case by auto
next
  case (Cons c cs)
  show ?case
  proof (intro set_eqI iffI)
    fix x
    assume "x \<in> set (many P (b, c # cs))"
    then consider "x = (b, c # cs)" | "P c" "x \<in> set (many P (c # b, cs))"
      by (auto split: if_splits)
    then show "x \<in> {(rev p @ b, r) | p r. c # cs = p @ r \<and> (\<forall>c \<in> set p. P c)}"
    proof cases
      case 1
      then show ?thesis by (auto intro!: exI [of _ "[]"])
    next
      case 2
      with Cons.IH [of "c # b"] obtain p r where "x = (rev p @ c # b, r)" "cs = p @ r" "\<forall>c \<in> set p. P c"
        by auto
      with 2(1) show ?thesis by (auto intro!: exI [of _ "c # p"])
    qed
  next
    fix x
    assume "x \<in> {(rev p @ b, r) | p r. c # cs = p @ r \<and> (\<forall>c \<in> set p. P c)}"
    then obtain p r where d: "x = (rev p @ b, r)" "c # cs = p @ r" "\<forall>c \<in> set p. P c" by blast
    show "x \<in> set (many P (b, c # cs))"
    proof (cases p)
      case Nil
      with d have "x = (b, c # cs)" by simp
      then show ?thesis by simp
    next
      case (Cons y p')
      with d have "y = c" "cs = p' @ r" "P c" "\<forall>c \<in> set p'. P c" by simp_all
      then have "(rev p' @ c # b, r) \<in> set (many P (c # b, cs))"
        using Cons.IH [of "c # b"] by blast
      with d(1) Cons \<open>y = c\<close> \<open>P c\<close> show ?thesis by simp
    qed
  qed
qed

lemma many1_set:
  "set (many1 P (b, a)) = {(rev p @ b, r) | p r. a = p @ r \<and> p \<noteq> [] \<and> (\<forall>c \<in> set p. P c)}"
proof (cases a)
  case Nil
  then show ?thesis by simp
next
  case (Cons c cs)
  show ?thesis
  proof (intro set_eqI iffI)
    fix x
    assume "x \<in> set (many1 P (b, a))"
    with Cons have "P c" "x \<in> set (many P (c # b, cs))" by (auto split: if_splits)
    then obtain p r where "x = (rev p @ c # b, r)" "cs = p @ r" "\<forall>c \<in> set p. P c"
      using many_set [of P "c # b" cs] by auto
    with \<open>P c\<close> Cons show "x \<in> {(rev p @ b, r) | p r. a = p @ r \<and> p \<noteq> [] \<and> (\<forall>c \<in> set p. P c)}"
      by (auto intro!: exI [of _ "c # p"])
  next
    fix x
    assume "x \<in> {(rev p @ b, r) | p r. a = p @ r \<and> p \<noteq> [] \<and> (\<forall>c \<in> set p. P c)}"
    then obtain p r where d: "x = (rev p @ b, r)" "a = p @ r" "p \<noteq> []" "\<forall>c \<in> set p. P c" by blast
    then obtain p' where p: "p = c # p'" using Cons by (cases p) auto
    with d Cons have "cs = p' @ r" "P c" "\<forall>c \<in> set p'. P c" by simp_all
    then have "(rev p' @ c # b, r) \<in> set (many P (c # b, cs))"
      using many_set [of P "c # b" cs] by blast
    with d(1) p Cons \<open>P c\<close> show "x \<in> set (many1 P (b, a))" by simp
  qed
qed

lemma rx_alts_groups: "r \<in> set (rx_alts rs p) \<Longrightarrow> length (fst r) = n_groups rs"
proof (induction rs arbitrary: p r)
  case Nil
  then show ?case by simp
next
  case (Cons x rs)
  show ?case
  proof (cases x)
    case (Atom y)
    with Cons.prems obtain p' where "r \<in> set (rx_alts rs p')" by auto
    with Cons.IH Atom show ?thesis by simp
  next
    case (Not_ahead ys)
    with Cons.prems have "r \<in> set (rx_alts rs p)" by (auto split: if_splits)
    with Cons.IH Not_ahead show ?thesis by simp
  next
    case (Group ys)
    with Cons.prems obtain p' r' where "r' \<in> set (rx_alts rs p')" "r = (between p p' # fst r', snd r')"
      by auto
    with Cons.IH [of r' p'] Group show ?thesis by simp
  qed
qed

lemma concat_map_over_concat:
  "concat (map f (concat xss)) = concat (map (\<lambda>xs. concat (map f xs)) xss)"
  by (induction xss) simp_all

lemma rx_alts_atoms:
  "rx_alts (map Atom xs @ rs) p = concat (map (rx_alts rs) (atoms_alts xs p))"
proof (induction xs arbitrary: p)
  case Nil
  then show ?case by simp
next
  case (Cons x xs)
  have "rx_alts (map Atom xs @ rs) = (\<lambda>q. concat (map (rx_alts rs) (atoms_alts xs q)))"
    by (rule ext) (rule Cons.IH)
  then show ?case
    by (simp add: concat_map_over_concat comp_def)
qed

lemma link_re_parts: "link_re = map Atom link_head @ Not_ahead link_ahead # link_tail"
  by (simp add: link_re_def link_head_def link_ahead_def link_tail_def)

lemma anchor_re_parts: "anchor_re = map Atom link_head @ link_tail"
  by (simp add: anchor_re_def link_head_def link_tail_def)

lemma ci_quote: \<open>ci ''"'' = [(CHR 0x22, CHR 0x22)]\<close>
  by (simp add: ci_def swap_case_def)

lemma ci_mp4: "ci ''.mp4'' = [(CHR ''.'', CHR ''.''), (CHR ''m'', CHR ''M''), (CHR ''p'', CHR ''P''), (CHR ''4'', CHR ''4'')]"
  by (simp add: ci_def swap_case_def)

lemma takeWhile_stop: "\<forall>c \<in> set h. P c \<Longrightarrow> \<not> P x \<Longrightarrow> takeWhile P (h @ x # rest) = h"
  by (induction h) simp_all

lemma in_class_Not_char: "in_class (Not_char x) = (\<lambda>c. c \<noteq> x)"
  by (rule ext) simp

lemma atoms_alts_single: "atoms_alts [x] p = atom_alts x p"
proof -
  have "atoms_alts [] = (\<lambda>q. [q])" by (rule ext) simp
  then show ?thesis by (simp add: concat_map_singleton)
qed

lemma atoms_alts_nonempty:
  "atoms_alts (x # xs) p \<noteq> [] \<longleftrightarrow> (\<exists>p' \<in> set (atom_alts x p). atoms_alts xs p' \<noteq> [])"
  by simp

lemma rx_alts_Group_elim:
  "r \<in> set (rx_alts (Group xs # rs) p) \<Longrightarrow>
     \<exists>p' r'. p' \<in> set (atoms_alts xs p) \<and> r' \<in> set (rx_alts rs p')
        \<and> r = (between p p' # fst r', snd r')"
  by fastforce

lemma rx_alts_Atom_elim:
  "r \<in> set (rx_alts (Atom x # rs) p) \<Longrightarrow> \<exists>p' \<in> set (atom_alts x p). r \<in> set (rx_alts rs p')"
  by auto

lemma link_tail_target:
  assumes "r \<in> set (rx_alts link_tail (b, a))"
  shows "\<exists>inner. fst r = [takeWhile (\<lambda>c. c \<noteq> CHR 0x22) a, inner]"
proof -
  let ?rest = "[Atom (Many (Not_char CHR ''>'')), Atom (Lit (ci ''>'')),
      Group [Few Any], Atom (Lit (ci ''</a>''))]"
  let ?tail' = "Atom (Lit [(CHR 0x22, CHR 0x22)]) # ?rest"
  have alts: "atoms_alts [Many1 (Not_char CHR 0x22)] (b, a) = many1 (\<lambda>c. c \<noteq> CHR 0x22) (b, a)"
    unfolding atoms_alts_single by (simp add: in_class_Not_char del: many1.simps)
  from assms have "r \<in> set (rx_alts (Group [Many1 (Not_char CHR 0x22)] # ?tail') (b, a))"
    by (simp only: link_tail_def ci_quote)
  from rx_alts_Group_elim [OF this]
  obtain p' r' where p': "p' \<in> set (many1 (\<lambda>c. c \<noteq> CHR 0x22) (b, a))"
    and r': "r' \<in> set (rx_alts ?tail' p')" and r: "r = (between (b, a) p' # fst r', snd r')"
    unfolding alts by blast
  from p' obtain h t where h: "p' = (rev h @ b, t)" "a = h @ t" "h \<noteq> []" "\<forall>c \<in> set h. c \<noteq> CHR 0x22"
    unfolding many1_set by blast
  from rx_alts_Atom_elim [OF r'] have "lit [(CHR 0x22, CHR 0x22)] p' \<noteq> []" by auto
  then have "lit_ok [(CHR 0x22, CHR 0x22)] t"
    using lit_ok_before [of "[(CHR 0x22, CHR 0x22)]" "rev h @ b" t] h(1) by simp
  then obtain t' where t: "t = CHR 0x22 # t'" by (auto simp: lit_ok_Cons)
  have "takeWhile (\<lambda>c. c \<noteq> CHR 0x22) a = h"
    using takeWhile_stop [of h "\<lambda>c. c \<noteq> CHR 0x22" "CHR 0x22" t'] h(2,4) t by simp
  moreover have "between (b, a) p' = h" using h(1,2) by simp
  moreover have "length (fst r') = 1"
    using rx_alts_groups [OF r'] by simp
  then obtain inner where "fst r' = [inner]" by (cases "fst r'") auto
  ultimately show ?thesis using r by simp
qed

lemma lit_ok_chars:
  "lit_ok l s \<Longrightarrow> \<exists>m rest. s = m @ rest \<and> lit_ok l m \<and> set m \<subseteq> fst ` set l \<union> snd ` set l"
proof (induction l arbitrary: s)
  case Nil
  then show ?case by (intro exI [of _ "[]"] exI [of _ s]) (simp add: lit_ok_Nil)
next
  case (Cons x l)
  from Cons.prems obtain c cs where s: "s = c # cs" "c = fst x \<or> c = snd x" "lit_ok l cs"
    by (auto simp: lit_ok_Cons)
  from Cons.IH [OF s(3)] obtain m rest where m: "cs = m @ rest" "lit_ok l m"
    "set m \<subseteq> fst ` set l \<union> snd ` set l" by blast
  show ?case
    using s m by (intro exI [of _ "c # m"] exI [of _ rest]) (auto simp: lit_ok_Cons)
qed

lemma link_ahead_iff:
  "atoms_alts link_ahead (b, a) \<noteq> [] \<longleftrightarrow> has_mp4 (takeWhile (\<lambda>c. c \<noteq> CHR 0x22) a)"
proof -
  let ?Q = "\<lambda>c. c \<noteq> CHR 0x22"
  let ?l = "ci ''.mp4''"
  have "atoms_alts link_ahead (b, a) \<noteq> [] \<longleftrightarrow> (\<exists>p' \<in> set (many ?Q (b, a)). lit ?l p' \<noteq> [])"
    unfolding link_ahead_def atoms_alts_nonempty atoms_alts_single
    by (simp add: in_class_Not_char del: many.simps)
  also have "\<dots> \<longleftrightarrow> (\<exists>pre r. a = pre @ r \<and> (\<forall>c \<in> set pre. ?Q c) \<and> lit_ok ?l r)"
    unfolding many_set using lit_ok_before [of ?l] by auto
  also have "\<dots> \<longleftrightarrow> (\<exists>p r. takeWhile ?Q a = p @ r \<and> lit_ok ?l r)"
  proof
    assume "\<exists>pre r. a = pre @ r \<and> (\<forall>c \<in> set pre. ?Q c) \<and> lit_ok ?l r"
    then obtain pre r where d: "a = pre @ r" "\<forall>c \<in> set pre. ?Q c" "lit_ok ?l r" by blast
    from lit_ok_chars [OF d(3)] obtain m rest where m: "r = m @ rest" "lit_ok ?l m"
      "set m \<subseteq> fst ` set ?l \<union> snd ` set ?l" by blast
    have "\<forall>c \<in> set m. ?Q c" using m(3) by (auto simp: ci_mp4)
    then have "takeWhile ?Q a = pre @ m @ takeWhile ?Q rest"
      using d(1,2) m(1) by (simp add: takeWhile_append2)
    moreover have "lit_ok ?l (m @ takeWhile ?Q rest)" using m(2) by (rule lit_ok_append)
    ultimately show "\<exists>p r. takeWhile ?Q a = p @ r \<and> lit_ok ?l r" by blast
  next
    assume "\<exists>p r. takeWhile ?Q a = p @ r \<and> lit_ok ?l r"
    then obtain p r where d: "takeWhile ?Q a = p @ r" "lit_ok ?l r" by blast
    have "a = p @ (r @ dropWhile ?Q a)"
      using takeWhile_dropWhile_id [of ?Q a] d(1) by simp
    moreover have "\<forall>c \<in> set p. ?Q c"
      using set_takeWhileD [of _ ?Q a] d(1) by auto
    moreover have "lit_ok ?l (r @ dropWhile ?Q a)" using d(2) by (rule lit_ok_append)
    ultimately show "\<exists>pre r. a = pre @ r \<and> (\<forall>c \<in> set pre. ?Q c) \<and> lit_ok ?l r" by blast
  qed
  finally show ?thesis by (simp add: has_mp4_def contains_lit_iff)
qed

lemma link_tail_filter:
  "(if atoms_alts link_ahead p = [] then rx_alts link_tail p else [])
     = filter (\<lambda>r. \<not> has_mp4 (group1 (fst r))) (rx_alts link_tail p)"
proof (cases p)
  case (Pair b a)
  let ?q = "takeWhile (\<lambda>c. c \<noteq> CHR 0x22) a"
  have target: "group1 (fst r) = ?q" if "r \<in> set (rx_alts link_tail (b, a))" for r
    using link_tail_target [OF that] by (auto simp: group1_def)
  show ?thesis
  proof (cases "has_mp4 ?q")
    case True
    then have "atoms_alts link_ahead (b, a) \<noteq> []" by (simp add: link_ahead_iff)
    moreover have "filter (\<lambda>r. \<not> has_mp4 (group1 (fst r))) (rx_alts link_tail (b, a)) = []"
      using True target by (simp add: filter_empty_conv)
    ultimately show ?thesis using Pair by simp
  next
    case False
    then have "atoms_alts link_ahead (b, a) = []" using link_ahead_iff [of b a] by blast
    moreover have "filter (\<lambda>r. \<not> has_mp4 (group1 (fst r))) (rx_alts link_tail (b, a))
        = rx_alts link_tail (b, a)"
      using False target by (simp add: filter_id_conv)
    ultimately show ?thesis using Pair by simp
  qed
qed

lemma rx_alts_link_re:
  "rx_alts link_re p = filter (\<lambda>r. \<not> has_mp4 (group1 (fst r))) (rx_alts anchor_re p)"
proof -
  have "rx_alts (Not_ahead link_ahead # link_tail)
          = (\<lambda>q. filter (\<lambda>r. \<not> has_mp4 (group1 (fst r))) (rx_alts link_tail q))"
    by (rule ext) (simp only: rx_alts.simps link_tail_filter)
  then show ?thesis
    unfolding link_re_parts anchor_re_parts rx_alts_atoms
    by (simp add: filter_concat comp_def)
qed

lemma all_matches_link_re:
  "all_matches link_re p = filter (\<lambda>r. \<not> has_mp4 (group1 (fst r))) (all_matches anchor_re p)"
proof (cases p)
  case (Pair b a)
  have "all_matches link_re (b, a)
      = filter (\<lambda>r. \<not> has_mp4 (group1 (fst r))) (all_matches anchor_re (b, a))"
    by (induction a arbitrary: b) (simp_all add: rx_alts_link_re)
  with Pair show ?thesis by simp
qed

lemma search_first: "search pat p = (case all_matches pat p of [] \<Rightarrow> None | r # rest \<Rightarrow> Some r)"
proof (cases p)
  case (Pair b a)
  have "search pat (b, a) = (case all_matches pat (b, a) of [] \<Rightarrow> None | r # rest \<Rightarrow> Some r)"
    by (induction a arbitrary: b) (auto simp: match_at_def split: list.splits)
  with Pair show ?thesis by simp
qed

lemma first_of_filter: "(case filter P xs of [] \<Rightarrow> None | r # rest \<Rightarrow> Some r) = find P xs"
  by (induction xs) simp_all

lemma search_link_re:
  "search link_re p = find (\<lambda>r. \<not> has_mp4 (group1 (fst r))) (all_matches anchor_re p)"
  by (simp only: search_first all_matches_link_re first_of_filter)

lemma all_matches_sound: "r \<in> set (all_matches pat p) \<Longrightarrow> \<exists>q. r \<in> set (rx_alts pat q)"
proof (cases p)
  case (Pair b a)
  assume "r \<in> set (all_matches pat p)"
  with Pair have "r \<in> set (all_matches pat (b, a))" by simp
  then show ?thesis
    by (induction a arbitrary: b) auto
qed

lemma anchor_groups:
  assumes "r \<in> set (all_matches anchor_re p)"
  shows "\<exists>h inner. fst r = [h, inner]"
proof -
  from all_matches_sound [OF assms] obtain q where "r \<in> set (rx_alts anchor_re q)" by blast
  from rx_alts_groups [OF this] have "length (fst r) = 2"
    by (simp add: anchor_re_def)
  then show ?thesis
    by (cases "fst r") (auto simp: length_Suc_conv)
qed

lemma find_groups2:
  assumes "\<forall>r \<in> set xs. \<exists>h inner. fst r = [h, inner]"
  shows "(case find (\<lambda>r. \<not> has_mp4 (group1 (fst r))) xs of None \<Rightarrow> None | Some r \<Rightarrow> groups2 (fst r))
       = find (\<lambda>t. \<not> has_mp4 (fst t)) (List.map_filter (\<lambda>r. groups2 (fst r)) xs)"
  using assms
proof (induction xs)
  case Nil
  then show ?case by (simp add: List.map_filter_simps)
next
  case (Cons x xs)
  from Cons.prems obtain h inner where x: "fst x = [h, inner]" by auto
  then have g: "groups2 (fst x) = Some (h, inner)" "group1 (fst x) = h"
    by (simp_all add: groups2_def group1_def)
  from Cons.prems have rest: "\<forall>r \<in> set xs. \<exists>h inner. fst r = [h, inner]" by simp
  show ?case
    using Cons.IH [OF rest] g by (simp add: List.map_filter_simps)
qed

text \<open>
  C4, as the code has it. Within a row the resolver takes the first anchor whose link target
  does not contain \<^verbatim>\<open>.mp4\<close>, in either letter case, anywhere in it: the lookahead
  \<^verbatim>\<open>(?![^"]*\.mp4)\<close> looks through the whole target. An anchor is passed over for its
  target exactly when the target contains that text.
\<close>

theorem link_search_first_anchor_without_mp4:
  "link_search row = find (\<lambda>t. \<not> has_mp4 (fst t)) (anchors row)"
proof -
  have "\<forall>r \<in> set (all_matches anchor_re ([], row)). \<exists>h inner. fst r = [h, inner]"
    using anchor_groups by blast
  from find_groups2 [OF this] show ?thesis
    by (simp add: link_search_def anchors_def search_link_re)
qed

lemma bak_anchors:
  \<open>anchors bak_row =
     [(''x.mp4.bak/'', ''old''), (''x.mp4.bak/'', ''old</a><a href="B/">B''), (''B/'', ''B'')]\<close>
  by code_simp

lemma bak_link_search: "link_search bak_row = Some (''B/'', ''B'')"
  by code_simp

lemma has_mp4_bak: "has_mp4 ''x.mp4.bak/''" "\<not> has_mp4 ''B/''"
  by code_simp+

text \<open>
  C4 on a row whose first anchor points to \<^verbatim>\<open>x.mp4.bak/\<close>: the second anchor is taken.
\<close>

theorem link_search_first_anchor_without_mp4_witness:
  "link_search bak_row = Some (''B/'', ''B'')"
  using link_search_first_anchor_without_mp4 [of bak_row]
  by (simp add: bak_anchors has_mp4_bak)

text \<open>
  C4 as the specification words it does not hold: the target \<^verbatim>\<open>x.mp4.bak/\<close> does not end in
  \<^verbatim>\<open>.mp4\<close>, yet its anchor is passed over.
\<close>

theorem link_search_skips_target_not_ending_in_mp4:
  "find (\<lambda>t. \<not> ends_with (fst t) ''.mp4'') (anchors bak_row) = Some (''x.mp4.bak/'', ''old'')
   \<and> link_search bak_row = Some (''B/'', ''B'')"
  by (simp add: bak_anchors bak_link_search ends_with_def)

subsection \<open>Properties of \<^verbatim>\<open>find_latest_mp4_path\<close>\<close>

lemma find_SomeD: "find P xs = Some x \<Longrightarrow> P x \<and> x \<in> set xs"
  by (induction xs) (auto split: if_splits)

lemma map_filter_mem: "y \<in> set (List.map_filter g xs) \<Longrightarrow> \<exists>x \<in> set xs. g x = Some y"
  by (induction xs) (auto simp: List.map_filter_simps split: option.splits)

lemma parse_latest_from_row:
  assumes "parse_latest_from_listing html = Some e"
  shows "\<exists>row. row_entry row = Some e"
proof -
  have "parse_latest_from_listing html = foldl better None (candidates html)"
    by (simp add: parse_latest_from_listing_def candidates_def foldl_latest_step)
  with assms have "find (\<lambda>c. \<forall>c' \<in> set (candidates html). modified c' \<le> modified c) (candidates html) = Some e"
    by (simp add: foldl_better_find)
  from find_SomeD [OF this] have "e \<in> set (candidates html)" by blast
  then show ?thesis unfolding candidates_def by (blast dest: map_filter_mem)
qed

lemma parse_latest_href:
  assumes "parse_latest_from_listing html = Some e"
  shows "\<not> has_mp4 (href e)"
proof -
  from parse_latest_from_row [OF assms] obtain row where "row_entry row = Some e" by blast
  from row_entry_Some [OF this] obtain inner where "link_search row = Some (href e, inner)" by blast
  then have "find (\<lambda>t. \<not> has_mp4 (fst t)) (anchors row) = Some (href e, inner)"
    using all_matches_link_re anchor_groups find_groups2 [of "all_matches anchor_re ([], row)"]
    by (simp add: link_search_def anchors_def search_link_re)
  from find_SomeD [OF this] show ?thesis by simp
qed


lemma find_latest_found:
  assumes "http_get st (urljoin st (''http://'' @ host) (with_slash list_path)) = Inr html"
    and "parse_latest_from_listing html = Some e"
    and "verbose \<longrightarrow> gmtime_error st (modified e) = None"
  shows "fst (find_latest_mp4_path st host list_path verbose w)
           = Inr (candidate_base st list_path (href e) @ ''.mp4'')"
  using assms by (simp add: find_latest_mp4_path_def Let_def)


lemma foo_parse:
  "parse_latest_from_listing foo_listing
     = Some \<lparr>name = ''FOO/'', href = ''/local/aic_tlp/FOO/'', modified = 7\<rparr>"
  by code_simp


lemma ends_with_split: "ends_with s suffix \<Longrightarrow> \<exists>y. s = y @ suffix"
proof -
  assume "ends_with s suffix"
  then have "s = take (length s - length suffix) s @ suffix"
    using append_take_drop_id [of "length s - length suffix" s] by (simp add: ends_with_def)
  then show ?thesis by blast
qed

lemma lit_ok_mp4: "lit_ok (ci ''.mp4'') ''.mp4''"
  by (simp add: lit_ok_def ci_mp4)

lemma no_mp4_no_ending:
  assumes "\<not> has_mp4 h"
  shows "\<not> ends_with (strip_slash h) ''.mp4''"
proof
  assume "ends_with (strip_slash h) ''.mp4''"
  from ends_with_split [OF this] obtain y where y: "strip_slash h = y @ ''.mp4''" by blast
  have "\<exists>t. h = strip_slash h @ t"
  proof (cases "h \<noteq> [] \<and> last h = CHR ''/''")
    case True
    then have "h = butlast h @ [last h]" using append_butlast_last_id [of h] by simp
    with True show ?thesis unfolding strip_slash_def by (auto intro: exI [of _ "[last h]"])
  next
    case False
    then show ?thesis by (auto simp: strip_slash_def)
  qed
  then obtain t where "h = y @ (''.mp4'' @ t)" using y by auto
  moreover have "lit_ok (ci ''.mp4'') (''.mp4'' @ t)" using lit_ok_mp4 by (rule lit_ok_append)
  ultimately have "has_mp4 h" unfolding has_mp4_def contains_lit_iff by blast
  with assms show False by simp
qed

lemma doubled_ending: "ends_with (x @ ''.mp4'') ''.mp4.mp4'' \<Longrightarrow> ends_with x ''.mp4''"
proof -
  assume "ends_with (x @ ''.mp4'') ''.mp4.mp4''"
  from ends_with_split [OF this] obtain y where "x @ ''.mp4'' = y @ ''.mp4.mp4''" by blast
  then have "x @ ''.mp4'' = (y @ ''.mp4'') @ ''.mp4''" by simp
  then have "x = y @ ''.mp4''" by (simp only: append_same_eq)
  then show ?thesis by (simp add: ends_with_def)
qed

text \<open>
  C6, as the code has it. Whenever the resolver returns a path, it is the normalised
  reference followed by \<^verbatim>\<open>.mp4\<close>: the extension is appended once and unconditionally. The
  winning reference never contains \<^verbatim>\<open>.mp4\<close> (the anchor pattern excludes such targets), so
  for a reference that is an absolute path the normalised reference does not end in the
  extension and the resolved path does not end in a doubled one.
\<close>

theorem find_latest_mp4_path_appends_once:
  assumes "find_latest_mp4_path st host list_path verbose w = (Inr p, w')"
  shows "\<exists>html e. http_get st (urljoin st (''http://'' @ host) (with_slash list_path)) = Inr html
        \<and> parse_latest_from_listing html = Some e
        \<and> p = candidate_base st list_path (href e) @ ''.mp4''
        \<and> \<not> has_mp4 (href e)
        \<and> (href e \<noteq> [] \<and> hd (href e) = CHR ''/'' \<longrightarrow>
              \<not> ends_with (candidate_base st list_path (href e)) ''.mp4'' \<and> \<not> ends_with p ''.mp4.mp4'')"
proof -
  let ?page = "urljoin st (''http://'' @ host) (with_slash list_path)"
  from assms obtain html where html: "http_get st ?page = Inr html"
    by (cases "http_get st ?page") (auto simp: find_latest_mp4_path_def Let_def)
  with assms obtain e where e: "parse_latest_from_listing html = Some e"
    by (cases "parse_latest_from_listing html") (auto simp: find_latest_mp4_path_def Let_def)
  from assms html e have p: "p = candidate_base st list_path (href e) @ ''.mp4''"
    by (auto simp: find_latest_mp4_path_def Let_def split: if_splits option.splits)
  have clean: "\<not> has_mp4 (href e)" using e by (rule parse_latest_href)
  have "\<not> ends_with (candidate_base st list_path (href e)) ''.mp4'' \<and> \<not> ends_with p ''.mp4.mp4''"
    if "href e \<noteq> [] \<and> hd (href e) = CHR ''/''"
  proof -
    from that have "candidate_base st list_path (href e) = strip_slash (href e)"
      by (simp add: candidate_base_def)
    with no_mp4_no_ending [OF clean] have "\<not> ends_with (candidate_base st list_path (href e)) ''.mp4''"
      by simp
    then show ?thesis using doubled_ending p by blast
  qed
  with html e p clean show ?thesis by blast
qed

text \<open>
  C6 on the \<^verbatim>\<open>FOO\<close> listing, in verbose mode.
\<close>

theorem find_latest_mp4_path_appends_once_witness:
  "fst (find_latest_mp4_path (site0 foo_listing) ''printer'' ''/local/aic_tlp'' True world0)
     = Inr ''/local/aic_tlp/FOO.mp4''
   \<and> \<not> ends_with ''/local/aic_tlp/FOO.mp4'' ''.mp4.mp4''"
proof -
  let ?r = "find_latest_mp4_path (site0 foo_listing) ''printer'' ''/local/aic_tlp'' True world0"
  have a: "http_get (site0 foo_listing)
             (urljoin (site0 foo_listing) (''http://'' @ ''printer'') (with_slash ''/local/aic_tlp''))
           = Inr foo_listing"
    by (simp add: site0_def)
  have c: "True \<longrightarrow> gmtime_error (site0 foo_listing)
             (modified \<lparr>name = ''FOO/'', href = ''/local/aic_tlp/FOO/'', modified = 7\<rparr>) = None"
    by (simp add: site0_def)
  have f: "fst ?r = Inr ''/local/aic_tlp/FOO.mp4''"
    using find_latest_found [OF a foo_parse c, of world0]
    by (simp add: candidate_base_def strip_slash_def)
  then have run: "?r = (Inr ''/local/aic_tlp/FOO.mp4'', snd ?r)"
    by (simp add: prod_eq_iff)
  from find_latest_mp4_path_appends_once [OF run] obtain html e where d:
    "http_get (site0 foo_listing)
       (urljoin (site0 foo_listing) (''http://'' @ ''printer'') (with_slash ''/local/aic_tlp'')) = Inr html"
    "parse_latest_from_listing html = Some e"
    "href e \<noteq> [] \<and> hd (href e) = CHR ''/'' \<longrightarrow>
       \<not> ends_with (candidate_base (site0 foo_listing) ''/local/aic_tlp'' (href e)) ''.mp4''
       \<and> \<not> ends_with ''/local/aic_tlp/FOO.mp4'' ''.mp4.mp4''"
    by blast
  from d(1) a have "html = foo_listing" by simp
  with d(2) foo_parse have "href e = ''/local/aic_tlp/FOO/''" by auto
  with d(3) f show ?thesis by simp
qed

lemma dot_parse:
  "parse_latest_from_listing dot_listing = Some \<lparr>name = ''.'', href = ''./'', modified = 7\<rparr>"
  by code_simp

lemma dot_base: "urljoin_plain ''/local/v.mp4/'' ''./'' = ''/local/v.mp4/''"
  by code_simp

text \<open>
  C6 as the specification words it does not hold. With the listing path \<^verbatim>\<open>/local/v.mp4/\<close>
  and a row that links to \<^verbatim>\<open>./\<close>, the normalised reference is \<^verbatim>\<open>/local/v.mp4\<close>, which ends in
  the extension, and the resolver appends it again.
\<close>

theorem find_latest_mp4_path_doubles_extension:
  "fst (find_latest_mp4_path (site0 dot_listing) ''printer'' ''/local/v.mp4/'' False world0)
     = Inr ''/local/v.mp4.mp4''
   \<and> candidate_base (site0 dot_listing) ''/local/v.mp4/'' ''./'' = ''/local/v.mp4''
   \<and> ends_with ''/local/v.mp4'' ''.mp4''"
proof -
  have a: "http_get (site0 dot_listing)
             (urljoin (site0 dot_listing) (''http://'' @ ''printer'') (with_slash ''/local/v.mp4/''))
           = Inr dot_listing"
    by (simp add: site0_def)
  have b: "candidate_base (site0 dot_listing) ''/local/v.mp4/'' ''./'' = ''/local/v.mp4''"
    by (simp add: candidate_base_def site0_def with_slash_def dot_base strip_slash_def)
  have "fst (find_latest_mp4_path (site0 dot_listing) ''printer'' ''/local/v.mp4/'' False world0)
     = Inr ''/local/v.mp4.mp4''"
    using find_latest_found [OF a dot_parse, of False world0] b by simp
  with b show ?thesis by (simp add: ends_with_def)
qed

subsection \<open>Failure kinds and exit statuses of \<^verbatim>\<open>main\<close>\<close>

lemma err_say: "err (say l w) = err w"
  by (simp add: say_def)

lemma err_complain: "err (complain l w) = err w @ [l]"
  by (simp add: complain_def)

lemma step_err_lines:
  "\<exists>ls. err (snd (step t u v e sw)) = err (snd sw) @ ls \<and> (\<forall>l \<in> set ls. failure_of l = None)"
proof (cases sw)
  case (Pair s w)
  show ?thesis
  proof (cases e)
    case (Recv fr)
    then show ?thesis using Pair
      by (cases fr) (auto simp: step_def say_def complain_def Let_def split: sum.splits option.splits)
  qed (auto simp: step_def say_def complain_def Let_def Pair)
qed

lemma wait_err_lines:
  "\<exists>ls. err (snd (wait t u v evs sw)) = err (snd sw) @ ls \<and> (\<forall>l \<in> set ls. failure_of l = None)"
proof (induction evs arbitrary: sw)
  case Nil
  then show ?case by simp
next
  case (Cons e evs)
  from step_err_lines [of t u v e sw] obtain l1
    where l1: "err (snd (step t u v e sw)) = err (snd sw) @ l1" "\<forall>l \<in> set l1. failure_of l = None"
    by blast
  from Cons.IH [of "step t u v e sw"] obtain l2
    where l2: "err (snd (wait t u v evs (step t u v e sw))) = err (snd (step t u v e sw)) @ l2"
      "\<forall>l \<in> set l2. failure_of l = None"
    by blast
  show ?case
  proof (cases "tws_done (fst (step t u v e sw)) \<or> thttp_done (fst (step t u v e sw))")
    case True
    then show ?thesis using l1 by (auto simp: Let_def)
  next
    case False
    then have "err (snd (wait t u v (e # evs) sw)) = err (snd sw) @ (l1 @ l2)"
      using l1(1) l2(1) by (simp add: Let_def)
    moreover have "\<forall>l \<in> set (l1 @ l2). failure_of l = None" using l1(2) l2(2) by auto
    ultimately show ?thesis by blast
  qed
qed

lemma download_loop_err_lines:
  "download_loop nt url dest retries backoff v k wt w = (ok, w') \<Longrightarrow>
     \<exists>ls. err w' = err w @ ls \<and> (\<forall>l \<in> set ls. failure_of l = None)"
proof (induction k arbitrary: wt w)
  case 0
  then show ?case by simp
next
  case (Suc k)
  let ?a = "nat retries - k"
  let ?w1 = "if v then say (Download_attempt ?a url dest) w else w"
  let ?w2 = "?w1\<lparr>requests := requests ?w1 @ [url],
                 fs_ops := fs_ops ?w1 @ attempt_writes dest (nt ?a)\<rparr>"
  have w2: "err ?w2 = err w" by (simp add: say_def)
  show ?case
  proof (cases "attempt_error (nt ?a)")
    case None
    with Suc.prems have "w' = (if v then say Download_success ?w2 else ?w2)"
      by (simp add: Let_def)
    then have "err w' = err w @ []" by (simp add: say_def)
    then show ?thesis by (intro exI [of _ "[]"]) simp
  next
    case (Some e)
    show ?thesis
    proof (cases "int ?a = retries")
      case True
      with Some Suc.prems have "w' = complain (Download_failed e) ?w2" by (simp add: Let_def)
      then have "err w' = err w @ [Download_failed e]" by (simp add: complain_def say_def)
      then show ?thesis by (intro exI [of _ "[Download_failed e]"]) simp
    next
      case False
      let ?w3 = "?w2\<lparr>sleeps := sleeps ?w2 @ [wt]\<rparr>"
      from False Some Suc.prems
      have "download_loop nt url dest retries backoff v k (min (wt * backoff) 8) ?w3 = (ok, w')"
        by (simp add: Let_def)
      from Suc.IH [OF this] show ?thesis by (cases v) (simp_all add: say_def)
    qed
  qed
qed

lemma last_not_failure:
  "ls \<noteq> [] \<Longrightarrow> \<forall>l \<in> set ls. failure_of l = None \<Longrightarrow> failure_of (last ls) = None"
  using last_in_set by blast

lemma run_after_wait:
  assumes "connect_error env = None" and "send_error env = None"
  shows "run env host target_mp4 chk max_wait v download_dir uo w
     = after_wait env host target_mp4 chk max_wait v download_dir uo
         (wait target_mp4 (''http://'' @ host @ target_mp4) v (schedule env)
            (watch0,
             say (Export_requested target_mp4)
               (w\<lparr>sent := sent w @ [make_export_cmd target_mp4 (request_id env) (now_ms env)]\<rparr>)))"
  using assms by (simp add: run_def after_wait_def Let_def)

lemma after_wait_failure_status:
  assumes "after_wait env host target_mp4 chk max_wait v download_dir uo (s, w2) = (stop, w')"
  shows "\<exists>ls. err w' = err w2 @ ls
           \<and> (\<forall>l \<in> set (butlast ls). failure_of l = None)
           \<and> (\<forall>k. ls \<noteq> [] \<and> failure_of (last ls) = Some k \<longrightarrow> exit_status stop = failure_status k)"
proof -
  let ?u = "''http://'' @ host @ target_mp4"
  let ?ok = "ws_ready s \<or> http_ready s"
  let ?again = "?ok \<and> chk \<and> \<not> http_ready s"
  let ?w3 = "if ?again then w2\<lparr>requests := requests w2 @ [?u]\<rparr> else w2"
  let ?w4 = "say (Timelapse_ready ?u) ?w3"
  let ?w5 = "if chk \<and> \<not> (http_ready s \<or> (?again \<and> post_probe env)) then say Heads_up ?w4 else ?w4"
  let ?w6 = "?w5\<lparr>fs_ops := fs_ops ?w5 @ [Makedirs download_dir]\<rparr>"
  let ?r = "download_file (download_net env) ?u (path_join download_dir (basename target_mp4))
              5 (3/2) v ?w6"
  have w3: "err ?w3 = err w2" by auto
  have w5: "err ?w5 = err w2" by (auto simp: err_say)
  have w6: "err ?w6 = err w2" using w5 by simp
  have "download_loop (download_net env) ?u (path_join download_dir (basename target_mp4))
          5 (3/2) v (nat 5) 1 ?w6 = (fst ?r, snd ?r)"
    by (simp add: download_file_def)
  from download_loop_err_lines [OF this]
  obtain l2 where l2: "err (snd ?r) = err w2 @ l2" "\<forall>l \<in> set l2. failure_of l = None"
    using w6 by auto
  have
    "(if \<not> ?ok then (Exit 1, complain (Timed_out max_wait target_mp4) ?w3)
        else if uo then (Returned, say (Download_url ?u) ?w5)
        else (case makedirs_error env of
                Some e \<Rightarrow> (Raised e, ?w5)
              | None \<Rightarrow>
                  if \<not> fst ?r then (Exit 2, complain (Download_failed_for ?u) (snd ?r))
                  else (Returned, say (Saved (path_join download_dir (basename target_mp4))) (snd ?r))))
      = (stop, w')"
    using assms unfolding after_wait_def Let_def fst_conv snd_conv .
  note eq = this
  show ?thesis
  proof (cases ?ok)
    case False
    with eq have "stop = Exit 1" "w' = complain (Timed_out max_wait target_mp4) ?w3"
      by simp_all
    moreover from this have "err w' = err w2 @ [Timed_out max_wait target_mp4]"
      using w3 by (simp add: err_complain)
    ultimately show ?thesis
      by (intro exI [of _ "[Timed_out max_wait target_mp4]"]) simp
  next
    case ok: True
    show ?thesis
    proof (cases uo)
      case True
      with ok eq have "w' = say (Download_url ?u) ?w5" by simp
      then have "err w' = err w2 @ []" using w5 by (simp add: err_say)
      then show ?thesis by (intro exI [of _ "[]"]) simp
    next
      case no_url: False
      show ?thesis
      proof (cases "makedirs_error env")
        case (Some e)
        with ok no_url eq have "w' = ?w5" by simp
        then have "err w' = err w2 @ []" using w5 by simp
        then show ?thesis by (intro exI [of _ "[]"]) simp
      next
        case None
        show ?thesis
        proof (cases "fst ?r")
          case False
          with None ok no_url eq have "stop = Exit 2" "w' = complain (Download_failed_for ?u) (snd ?r)"
            by simp_all
          moreover from this have "err w' = err w2 @ (l2 @ [Download_failed_for ?u])"
            using l2(1) by (simp add: err_complain)
          ultimately show ?thesis
            using l2(2) by (intro exI [of _ "l2 @ [Download_failed_for ?u]"]) simp
        next
          case True
          with None ok no_url eq
          have "w' = say (Saved (path_join download_dir (basename target_mp4))) (snd ?r)"
            by simp
          then have "err w' = err w2 @ l2" using l2(1) by (simp add: err_say)
          then show ?thesis
            using l2(2) last_not_failure [of l2]
            by (intro exI [of _ l2]) (auto dest: in_set_butlastD)
        qed
      qed
    qed
  qed
qed

lemma run_failure_status:
  assumes "run env host target_mp4 chk max_wait v download_dir uo w = (stop, w')"
  shows "\<exists>ls. err w' = err w @ ls
           \<and> (\<forall>k. ls \<noteq> [] \<and> failure_of (last ls) = Some k \<longrightarrow> exit_status stop = failure_status k)"
proof (cases "connect_error env = None \<and> send_error env = None")
  case False
  with assms have "w' = w" by (auto simp: run_def Let_def split: option.splits)
  then show ?thesis by (intro exI [of _ "[]"]) simp
next
  case True
  let ?u = "''http://'' @ host @ target_mp4"
  let ?w1 = "say (Export_requested target_mp4)
               (w\<lparr>sent := sent w @ [make_export_cmd target_mp4 (request_id env) (now_ms env)]\<rparr>)"
  let ?sw = "wait target_mp4 ?u v (schedule env) (watch0, ?w1)"
  from wait_err_lines [of target_mp4 ?u v "schedule env" "(watch0, ?w1)"]
  obtain l1 where l1: "err (snd ?sw) = err w @ l1" "\<forall>l \<in> set l1. failure_of l = None"
    by (auto simp: err_say)
  from True assms have "after_wait env host target_mp4 chk max_wait v download_dir uo (fst ?sw, snd ?sw) = (stop, w')"
    by (simp add: run_after_wait)
  from after_wait_failure_status [OF this] obtain l2 where l2:
    "err w' = err (snd ?sw) @ l2" "\<forall>l \<in> set (butlast l2). failure_of l = None"
    "\<forall>k. l2 \<noteq> [] \<and> failure_of (last l2) = Some k \<longrightarrow> exit_status stop = failure_status k"
    by blast
  have "err w' = err w @ (l1 @ l2)" using l1(1) l2(1) by simp
  moreover have "exit_status stop = failure_status k"
    if "l1 @ l2 \<noteq> []" "failure_of (last (l1 @ l2)) = Some k" for k
  proof (cases "l2 = []")
    case True
    with that l1(2) last_not_failure [of l1] show ?thesis by auto
  next
    case False
    with that l2(3) show ?thesis by simp
  qed
  ultimately show ?thesis by blast
qed

lemma find_latest_failure:
  assumes "find_latest_mp4_path st host list_path v w = (r, w')"
  shows "(\<exists>l. r = Inl (Exit 1) \<and> err w' = err w @ [l] \<and> failure_of l = Some Could_not_resolve_latest)
       \<or> (err w' = err w \<and> (\<forall>stop. r = Inl stop \<longrightarrow> (\<exists>e. stop = Raised e)))"
proof -
  let ?page = "urljoin st (''http://'' @ host) (with_slash list_path)"
  let ?w1 = "if v then say (Latest_fetching ?page) w else w"
  let ?w2 = "?w1\<lparr>requests := requests ?w1 @ [?page]\<rparr>"
  have w2: "err ?w2 = err w" by (auto simp: err_say)
  show ?thesis
  proof (cases "http_get st ?page")
    case (Inl e)
    with assms have "r = Inl (Exit 1)" "w' = complain (Latest_fetch_failed e) ?w2"
      by (auto simp: find_latest_mp4_path_def Let_def)
    then show ?thesis using w2 by (simp add: err_complain)
  next
    case (Inr html)
    show ?thesis
    proof (cases "parse_latest_from_listing html")
      case None
      with Inr assms have "r = Inl (Exit 1)" "w' = complain Latest_no_entries ?w2"
        by (auto simp: find_latest_mp4_path_def Let_def)
      then show ?thesis using w2 by (simp add: err_complain)
    next
      case (Some e)
      with Inr assms have "err w' = err w \<and> (\<forall>stop. r = Inl stop \<longrightarrow> (\<exists>e. stop = Raised e))"
        using w2 by (auto simp: find_latest_mp4_path_def Let_def err_say split: if_splits option.splits)
      then show ?thesis by blast
    qed
  qed
qed

text \<open>
  C3, as the code has it. Whatever the command line and the outside, when the last line the
  script writes to standard error is the message of one of the three failure kinds, the
  process ends with the status \<open>failure_status\<close> gives that kind: 2 for a download that failed
  after its retries, 1 for a timeout of the wait, and 1 again for a listing that could not be
  resolved.
\<close>

theorem main_failure_exit_status:
  assumes "main a st env w = (stop, w')"
  shows "\<exists>ls. err w' = err w @ ls
           \<and> (\<forall>k. ls \<noteq> [] \<and> failure_of (last ls) = Some k \<longrightarrow> exit_status stop = failure_status k)"
proof (cases "arg_latest a")
  case True
  obtain r w1 where f: "find_latest_mp4_path st (arg_host a) (arg_list_path a) (arg_verbose a) w = (r, w1)"
    by (cases "find_latest_mp4_path st (arg_host a) (arg_list_path a) (arg_verbose a) w")
  show ?thesis
  proof (cases r)
    case (Inl stop1)
    with True f assms have s: "stop = stop1" "w' = w1" by (simp_all add: main_def)
    from find_latest_failure [OF f] Inl consider
        l where "stop1 = Exit 1" "err w1 = err w @ [l]" "failure_of l = Some Could_not_resolve_latest"
      | e where "err w1 = err w" "stop1 = Raised e"
      by auto
    then show ?thesis
    proof cases
      case 1
      with s show ?thesis by (intro exI [of _ "[l]"]) simp
    next
      case 2
      with s show ?thesis by (intro exI [of _ "[]"]) simp
    qed
  next
    case (Inr target_mp4)
    with True f assms have "run env (arg_host a) target_mp4 (arg_check a) (arg_timeout a) (arg_verbose a)
        (arg_out_dir a) (arg_url_only a) w1 = (stop, w')"
      by (simp add: main_def)
    from run_failure_status [OF this] find_latest_failure [OF f] Inr show ?thesis by simp
  qed
next
  case False
  show ?thesis
  proof (cases "arg_file a = None \<or> arg_file a = Some []")
    case True
    with False assms have "w' = complain Provide_file w"
      by (auto simp: main_def)
    then show ?thesis by (intro exI [of _ "[Provide_file]"]) (simp add: err_complain)
  next
    case no_misuse: False
    then obtain f where "arg_file a = Some f" "f \<noteq> []" by auto
    with False assms have "run env (arg_host a) (arg_list_path a @ f) (arg_check a) (arg_timeout a)
        (arg_verbose a) (arg_out_dir a) (arg_url_only a) w = (stop, w')"
      by (simp add: main_def)
    from run_failure_status [OF this] show ?thesis .
  qed
qed

lemma refused_err:
  "err (snd (main args0 site_down env_refused world0))
     = [Download_failed ''refused'', Download_failed_for ''http://printer/local/aic_tlp/A.mp4'']"
  by (simp add: main_def args0_def env_refused_def env0_def run_def step_def watch0_def world0_def
        download_file_def say_def complain_def Let_def eval_nat_numeral)

text \<open>
  C3 on a run whose five download attempts are all refused: status 2.
\<close>

theorem main_failure_exit_status_witness:
  "exit_status (fst (main args0 site_down env_refused world0)) = 2
   \<and> failure_of (last (err (snd (main args0 site_down env_refused world0))))
       = Some Download_failed_after_retries"
proof -
  let ?m = "main args0 site_down env_refused world0"
  have "?m = (fst ?m, snd ?m)" by simp
  from main_failure_exit_status [OF this] obtain ls where ls:
    "err (snd ?m) = err world0 @ ls"
    "\<forall>k. ls \<noteq> [] \<and> failure_of (last ls) = Some k \<longrightarrow> exit_status (fst ?m) = failure_status k"
    by blast
  have "err world0 = []" by (simp add: world0_def)
  with ls(1) have "ls = [Download_failed ''refused'', Download_failed_for ''http://printer/local/aic_tlp/A.mp4'']"
    by (simp add: refused_err)
  with ls(2) show ?thesis by (simp add: refused_err)
qed

text \<open>
  C3 as the specification words it does not hold: a listing that cannot be fetched and a
  wait that times out end the process with the same status 1; only their messages differ.
\<close>

theorem timeout_and_unresolved_share_status:
  "exit_status (fst (main (args0\<lparr>arg_latest := True\<rparr>) site_down env0 world0)) = 1
   \<and> err (snd (main (args0\<lparr>arg_latest := True\<rparr>) site_down env0 world0))
       = [Latest_fetch_failed ''timed out'']
   \<and> exit_status (fst (main args0 site_down env0 world0)) = 1
   \<and> err (snd (main args0 site_down env0 world0)) = [Timed_out 180 ''/local/aic_tlp/A.mp4'']"
  by (simp add: main_def args0_def site_down_def env0_def run_def find_latest_mp4_path_def
        watch0_def world0_def say_def complain_def Let_def)

end
